theory Spec2Isabelle
  imports Main "HOL-Library.Monad_Syntax"
begin

section \<open>Data model of the Epsilon heap\<close>

text \<open>
  A \<open>HeapWord*\<close> is an address counted in heap words; byte quantities of the virtual
  space are counted in bytes. A reference slot holds either null or the address of an
  object. Values of type \<open>size_t\<close> are natural numbers below \<open>2 ^ 64\<close>; the three
  operations of the source that can leave that range are written out with their
  wrap-around.
\<close>

type_synonym addr = nat
type_synonym slot = "addr option"

definition HeapWordSize :: nat where
  "HeapWordSize = 8"

definition size_t_max :: nat where
  "size_t_max = 2 ^ 64"

definition size_t_sub :: "nat \<Rightarrow> nat \<Rightarrow> nat" where
  "size_t_sub a b = (if b \<le> a then a - b else a + size_t_max - b)"

definition size_t_mul :: "nat \<Rightarrow> nat \<Rightarrow> nat" where
  "size_t_mul a b = (a * b) mod size_t_max"

definition size_t_inc :: "nat \<Rightarrow> nat" where
  "size_t_inc a = (a + 1) mod size_t_max"

text \<open>
  The mark word of an object header: either ordinary header bits (\<open>Header 0\<close> is the
  prototype that \<open>init_mark\<close> installs), or a forwarding pointer written by
  \<open>FullGCForwarding::forward_to\<close>.
\<close>

datatype markWord = Header nat | Forwarding addr

record oopDesc =
  mark_word :: markWord
  obj_size :: nat
  oop_fields :: "slot list"

record MarkBitMap =
  covered_start :: addr
  covered_end :: addr
  bits :: "addr set"

record EpsilonThreadLocalData =
  ergo_tlab_size :: nat
  last_tlab_time :: int

datatype log_line =
    LogWarning string
  | LogInfo string
  | LogGCStats nat nat nat nat
  | LogHeapInfo nat nat nat
  | LogMetaspaceInfo
  | LogTLAB nat nat nat nat nat

text \<open>
  The flags and the values \<open>EpsilonHeap::initialize\<close> precomputes from them. The product
  \<open>ergo_tlab * EpsilonTLABElasticity\<close> is a floating-point product converted back to
  \<open>size_t\<close>; it is kept as the function \<open>tlab_elasticity\<close>.
\<close>

record flags =
  EpsilonSlidingGC :: bool
  EpsilonImplicitGC :: bool
  EpsilonElasticTLAB :: bool
  EpsilonElasticTLABDecay :: bool
  EpsilonVerify :: bool
  EpsilonUncommit :: bool
  EpsilonMinHeapExpand :: nat
  MinObjAlignment :: nat
  tlab_elasticity :: "nat \<Rightarrow> nat"
  max_tlab_size :: nat
  decay_time_ns :: int
  step_counter_update :: nat
  step_heap_print :: nat
  log_trace_gc :: bool

text \<open>
  What the operating system answers to the calls of one operation: whether committing
  memory succeeds and whether uncommitting it succeeds.
\<close>

record os_answers =
  commit_ok :: bool
  uncommit_ok :: bool

record EpsilonHeap =
  space_bottom :: addr
  space_top :: addr
  space_end :: addr
  vs_low :: nat
  vs_high :: nat
  vs_high_boundary :: nat
  objects :: "addr \<rightharpoonup> oopDesc"
  roots :: "slot list"
  bitmap :: MarkBitMap
  gc_locker_count :: int
  gc_locker_blocked :: bool
  req_id :: nat
  heap_lock_held :: bool
  tld :: "nat \<Rightarrow> EpsilonThreadLocalData"
  last_counter_update :: nat
  last_heap_print :: nat
  counter_updates :: nat
  gc_log :: "log_line list"

section \<open>The pin lock\<close>

text \<open>
  Modelled from the spec: \<open>GCLocker\<close> (gc/shared/gcLocker) is not part of the sources at
  hand. The spec describes it as a reader counter: \<open>enter\<close> increments it, \<open>exit\<close>
  decrements it, \<open>is_active\<close> holds when it is non-zero, and \<open>block\<close>/\<open>unblock\<close> bracket
  a region in which newly arriving pin operations wait.
\<close>

definition GCLocker_enter :: "EpsilonHeap \<Rightarrow> EpsilonHeap" where
  "GCLocker_enter s = s\<lparr>gc_locker_count := gc_locker_count s + 1\<rparr>"

definition GCLocker_exit :: "EpsilonHeap \<Rightarrow> EpsilonHeap" where
  "GCLocker_exit s = s\<lparr>gc_locker_count := gc_locker_count s - 1\<rparr>"

definition GCLocker_is_active :: "EpsilonHeap \<Rightarrow> bool" where
  "GCLocker_is_active s = (gc_locker_count s \<noteq> 0)"

definition GCLocker_block :: "EpsilonHeap \<Rightarrow> EpsilonHeap" where
  "GCLocker_block s = s\<lparr>gc_locker_blocked := True\<rparr>"

definition GCLocker_unblock :: "EpsilonHeap \<Rightarrow> EpsilonHeap" where
  "GCLocker_unblock s = s\<lparr>gc_locker_blocked := False\<rparr>"

text \<open>\<open>EpsilonHeap::pin_object\<close> and \<open>EpsilonHeap::unpin_object\<close>.\<close>

definition pin_object :: "flags \<Rightarrow> nat \<Rightarrow> addr \<Rightarrow> EpsilonHeap \<Rightarrow> EpsilonHeap" where
  "pin_object fl thread obj s = (if EpsilonSlidingGC fl then GCLocker_enter s else s)"

definition unpin_object :: "flags \<Rightarrow> nat \<Rightarrow> addr \<Rightarrow> EpsilonHeap \<Rightarrow> EpsilonHeap" where
  "unpin_object fl thread obj s = (if EpsilonSlidingGC fl then GCLocker_exit s else s)"

section \<open>The mark bitmap\<close>

text \<open>
  Modelled from the spec: \<open>MarkBitMap\<close> (gc/shared/markBitMap) is not part of the sources
  at hand. It is a side table with one bit per heap word of the reserved heap; it
  supports mark, test, clear and the forward scan to the next marked address below a
  limit (the limit itself when there is none). Marking or testing an address outside the
  covered range is an error of the caller.
\<close>

definition covers :: "MarkBitMap \<Rightarrow> addr \<Rightarrow> bool" where
  "covers bm a = (covered_start bm \<le> a \<and> a < covered_end bm)"

definition is_marked :: "MarkBitMap \<Rightarrow> addr \<Rightarrow> bool" where
  "is_marked bm a = (a \<in> bits bm)"

definition mark :: "MarkBitMap \<Rightarrow> addr \<Rightarrow> MarkBitMap" where
  "mark bm a = bm\<lparr>bits := insert a (bits bm)\<rparr>"

definition clear_bitmap :: "MarkBitMap \<Rightarrow> MarkBitMap" where
  "clear_bitmap bm = bm\<lparr>bits := {}\<rparr>"

function get_next_marked_addr :: "MarkBitMap \<Rightarrow> addr \<Rightarrow> addr \<Rightarrow> addr" where
  "get_next_marked_addr bm a limit =
     (if a < limit
      then (if is_marked bm a then a else get_next_marked_addr bm (a + 1) limit)
      else limit)"
  by pat_completeness auto
termination
  by (relation "measure (\<lambda>(bm, a, limit). limit - a)") auto

declare get_next_marked_addr.simps [simp del]

section \<open>Visiting reference slots\<close>

text \<open>
  An oop closure is applied to a reference slot: it sees the slot's content, may rewrite
  it, and updates its own state. \<open>None\<close> stands for a failed assertion, a fatal
  \<open>guarantee\<close> or an access to memory that holds no object. \<open>slots_do\<close> applies a
  closure to a sequence of slots in order; \<open>oop_iterate\<close> does so for the reference
  fields of one object, and \<open>process_roots\<close> for the root slots, which are listed in the
  order \<open>EpsilonHeap::process_roots\<close> visits them (strong OopStorages, class loader data,
  threads, nmethods, weak OopStorages).
\<close>

fun slots_do :: "(slot \<Rightarrow> 'c \<Rightarrow> (slot \<times> 'c) option) \<Rightarrow> slot list \<Rightarrow> 'c \<Rightarrow> (slot list \<times> 'c) option" where
  "slots_do cl [] c = Some ([], c)"
| "slots_do cl (p # ps) c =
     (case cl p c of
        None \<Rightarrow> None
      | Some (p', c') \<Rightarrow>
          (case slots_do cl ps c' of
             None \<Rightarrow> None
           | Some (ps', c'') \<Rightarrow> Some (p' # ps', c'')))"

definition oop_iterate ::
  "(slot \<Rightarrow> 'c \<Rightarrow> (slot \<times> 'c) option) \<Rightarrow> addr \<Rightarrow> (addr \<rightharpoonup> oopDesc) \<times> 'c \<Rightarrow>
   ((addr \<rightharpoonup> oopDesc) \<times> 'c) option" where
  "oop_iterate cl obj hc =
     (case hc of (objs, c) \<Rightarrow>
        (case objs obj of
           None \<Rightarrow> None
         | Some od \<Rightarrow>
             (case slots_do cl (oop_fields od) c of
                None \<Rightarrow> None
              | Some (fs, c') \<Rightarrow> Some (objs(obj \<mapsto> od\<lparr>oop_fields := fs\<rparr>), c'))))"

definition process_roots ::
  "(slot \<Rightarrow> 'c \<Rightarrow> (slot \<times> 'c) option) \<Rightarrow> bool \<Rightarrow> slot list \<Rightarrow> 'c \<Rightarrow> (slot list \<times> 'c) option" where
  "process_roots cl update rs c = slots_do cl rs c"

section \<open>Step 1: mark\<close>

text \<open>
  \<open>EpsilonScanOopClosure::do_oop_work\<close>: the closure state is the bitmap and the mark
  stack (top of the stack first). The slot is never rewritten.
\<close>

definition scan_do_oop_work ::
  "slot \<Rightarrow> MarkBitMap \<times> addr list \<Rightarrow> (slot \<times> MarkBitMap \<times> addr list) option" where
  "scan_do_oop_work p c =
     (case c of (bm, stack) \<Rightarrow>
        (case p of
           None \<Rightarrow> Some (p, bm, stack)
         | Some obj \<Rightarrow>
             if \<not> covers bm obj then None
             else if \<not> is_marked bm obj then Some (p, mark bm obj, obj # stack)
             else Some (p, bm, stack)))"

definition unmarked_count :: "MarkBitMap \<Rightarrow> nat" where
  "unmarked_count bm = card ({covered_start bm..<covered_end bm} - bits bm)"

lemma scan_do_oop_work_measure:
  "scan_do_oop_work p (bm, stack) = Some (p', bm', stack') \<Longrightarrow>
   covered_start bm' = covered_start bm \<and> covered_end bm' = covered_end bm \<and>
   unmarked_count bm' + length stack' = unmarked_count bm + length stack"
proof (cases p)
  case None
  assume "scan_do_oop_work p (bm, stack) = Some (p', bm', stack')"
  with None show ?thesis by (simp add: scan_do_oop_work_def)
next
  case (Some obj)
  assume a: "scan_do_oop_work p (bm, stack) = Some (p', bm', stack')"
  show ?thesis
  proof (cases "is_marked bm obj")
    case True
    with a Some show ?thesis
      by (simp add: scan_do_oop_work_def split: if_splits)
  next
    case False
    with a Some have c: "covers bm obj" and bm': "bm' = mark bm obj" and st: "stack' = obj # stack"
      by (auto simp: scan_do_oop_work_def split: if_splits)
    let ?U = "{covered_start bm..<covered_end bm} - bits bm"
    have fin: "finite ?U" by simp
    have mem: "obj \<in> ?U" using c False by (auto simp: covers_def is_marked_def)
    have "{covered_start bm..<covered_end bm} - insert obj (bits bm) = ?U - {obj}" by auto
    then have "unmarked_count bm' = card (?U - {obj})"
      by (simp add: bm' unmarked_count_def mark_def)
    also have "\<dots> = card ?U - 1" using fin mem by simp
    finally have "unmarked_count bm' + 1 = unmarked_count bm"
      using mem fin card_gt_0_iff [of ?U] by (auto simp: unmarked_count_def)
    then show ?thesis by (simp add: bm' st mark_def)
  qed
qed

lemma slots_do_scan_measure:
  "slots_do scan_do_oop_work ps (bm, stack) = Some (ps', bm', stack') \<Longrightarrow>
   covered_start bm' = covered_start bm \<and> covered_end bm' = covered_end bm \<and>
   unmarked_count bm' + length stack' = unmarked_count bm + length stack"
proof (induction ps arbitrary: bm stack ps')
  case Nil
  then show ?case by simp
next
  case (Cons p ps)
  from Cons.prems obtain p1 bm1 st1 ps1 where
    h: "scan_do_oop_work p (bm, stack) = Some (p1, bm1, st1)"
    and t: "slots_do scan_do_oop_work ps (bm1, st1) = Some (ps1, bm', stack')"
    by (auto split: option.splits)
  from scan_do_oop_work_measure [OF h] Cons.IH [OF t] show ?case by simp
qed

text \<open>
  The loop of step 1: pop an object, scan its reference fields, count it. The state is
  the heap memory, the bitmap, the mark stack and \<open>stat_reachable_heap\<close>.
\<close>

function mark_loop ::
  "(addr \<rightharpoonup> oopDesc) \<times> MarkBitMap \<times> addr list \<times> nat \<Rightarrow>
   ((addr \<rightharpoonup> oopDesc) \<times> MarkBitMap \<times> addr list \<times> nat) option" where
  "mark_loop (objs, bm, stack, n) =
     (case stack of
        [] \<Rightarrow> Some (objs, bm, stack, n)
      | obj # rest \<Rightarrow>
          (case oop_iterate scan_do_oop_work obj (objs, (bm, rest)) of
             None \<Rightarrow> None
           | Some (objs', (bm', stack')) \<Rightarrow> mark_loop (objs', bm', stack', n + 1)))"
  by pat_completeness auto
termination
proof (relation "measure (\<lambda>(objs, bm, stack, n). unmarked_count bm + length stack)")
  show "wf (measure (\<lambda>(objs, bm, stack, n). unmarked_count bm + length stack))" by simp
next
  fix objs :: "addr \<rightharpoonup> oopDesc" and bm stack and n :: nat and obj rest x2 objs' y bm' stack'
  assume st: "stack = obj # rest"
    and it: "oop_iterate scan_do_oop_work obj (objs, bm, rest) = Some x2"
    and x2: "(objs', y) = x2" and y: "(bm', stack') = y"
  from it x2 y obtain od :: oopDesc and fs where
    "slots_do scan_do_oop_work (oop_fields od) (bm, rest) = Some (fs, bm', stack')"
    by (auto simp: oop_iterate_def split: option.splits)
  from slots_do_scan_measure [OF this] st
  show "((objs', bm', stack', n + 1), (objs, bm, stack, n))
        \<in> measure (\<lambda>(objs, bm, stack, n). unmarked_count bm + length stack)"
    by simp
qed

declare mark_loop.simps [simp del]

section \<open>Walking the bitmap\<close>

text \<open>
  An object closure is applied to the address of an object; it updates the heap memory
  and its own state. \<open>EpsilonHeap::walk_bitmap\<close> calls it on every marked address
  between \<open>bottom\<close> and \<open>top\<close>, in address order.
\<close>

lemma get_next_marked_addr_ge:
  "a \<le> limit \<Longrightarrow> a \<le> get_next_marked_addr bm a limit"
proof (induction bm a limit rule: get_next_marked_addr.induct)
  case (1 bm a limit)
  show ?case
  proof (cases "a < limit \<and> \<not> is_marked bm a")
    case True
    with "1.IH" have "a + 1 \<le> get_next_marked_addr bm (a + 1) limit" by simp
    with True show ?thesis by (subst get_next_marked_addr.simps) simp
  next
    case False
    with "1.prems" show ?thesis by (subst get_next_marked_addr.simps) auto
  qed
qed

function walk_bitmap_loop ::
  "MarkBitMap \<Rightarrow> addr \<Rightarrow> (addr \<Rightarrow> 'c \<Rightarrow> 'c option) \<Rightarrow> addr \<Rightarrow> 'c \<Rightarrow> 'c option" where
  "walk_bitmap_loop bm limit cl a c =
     (if a < limit
      then (case cl a c of
              None \<Rightarrow> None
            | Some c' \<Rightarrow>
                (let a' = a + 1 in
                 if a' < limit
                 then walk_bitmap_loop bm limit cl (get_next_marked_addr bm a' limit) c'
                 else Some c'))
      else Some c)"
  by pat_completeness auto
termination
proof (relation "measure (\<lambda>(bm, limit, cl, a, c). limit - a)")
  show "wf (measure (\<lambda>(bm, limit, cl, a, c). limit - a))" by simp
next
  fix bm :: MarkBitMap and limit :: addr and cl :: "addr \<Rightarrow> 'c \<Rightarrow> 'c option"
    and a :: addr and c c' :: 'c and a' :: addr
  assume "a < limit" and a': "a' = a + 1" and lt: "a' < limit"
  from get_next_marked_addr_ge [of a' limit bm] lt
  have "a' \<le> get_next_marked_addr bm a' limit" by simp
  with a' \<open>a < limit\<close>
  show "((bm, limit, cl, get_next_marked_addr bm a' limit, c'), (bm, limit, cl, a, c))
        \<in> measure (\<lambda>(bm, limit, cl, a, c). limit - a)"
    by simp
qed

declare walk_bitmap_loop.simps [simp del]

definition walk_bitmap ::
  "MarkBitMap \<Rightarrow> addr \<Rightarrow> addr \<Rightarrow> (addr \<Rightarrow> 'c \<Rightarrow> 'c option) \<Rightarrow> 'c \<Rightarrow> 'c option" where
  "walk_bitmap bm bottom top_addr cl c =
     (let limit = top_addr;
          a = get_next_marked_addr bm bottom limit
      in walk_bitmap_loop bm limit cl a c)"

section \<open>Forwarding and preserved marks\<close>

text \<open>
  Modelled from the spec: \<open>FullGCForwarding\<close> and \<open>PreservedMarks\<close> (gc/shared) are not
  part of the sources at hand. Forwarding overwrites the mark word of an object with a
  forwarding record; an object is forwarded when its mark word is such a record. The
  preserved marks are a stack of pairs (object, original mark word), pushed only when
  the mark word is not the pattern \<open>init_mark\<close> can rebuild; before the move their object
  components are replaced by the forwardees, and at the end each mark is stored back.
\<close>

definition prototype :: markWord where
  "prototype = Header 0"

definition must_be_preserved :: "markWord \<Rightarrow> bool" where
  "must_be_preserved m = (m \<noteq> prototype)"

definition mark_is_marked :: "markWord \<Rightarrow> bool" where
  "mark_is_marked m = (case m of Forwarding f \<Rightarrow> True | Header h \<Rightarrow> False)"

definition forward_to :: "(addr \<rightharpoonup> oopDesc) \<Rightarrow> addr \<Rightarrow> addr \<Rightarrow> (addr \<rightharpoonup> oopDesc) option" where
  "forward_to objs obj fwd =
     (case objs obj of
        None \<Rightarrow> None
      | Some od \<Rightarrow> Some (objs(obj \<mapsto> od\<lparr>mark_word := Forwarding fwd\<rparr>)))"

definition forwardee_of :: "(addr \<rightharpoonup> oopDesc) \<Rightarrow> addr \<Rightarrow> addr option option" where
  "forwardee_of objs obj =
     (case objs obj of
        None \<Rightarrow> None
      | Some od \<Rightarrow>
          (case mark_word od of Forwarding f \<Rightarrow> Some (Some f) | Header h \<Rightarrow> Some None))"

definition init_mark :: "(addr \<rightharpoonup> oopDesc) \<Rightarrow> addr \<Rightarrow> (addr \<rightharpoonup> oopDesc) option" where
  "init_mark objs obj =
     (case objs obj of
        None \<Rightarrow> None
      | Some od \<Rightarrow> Some (objs(obj \<mapsto> od\<lparr>mark_word := prototype\<rparr>)))"

definition set_mark :: "(addr \<rightharpoonup> oopDesc) \<Rightarrow> addr \<Rightarrow> markWord \<Rightarrow> (addr \<rightharpoonup> oopDesc) option" where
  "set_mark objs obj m =
     (case objs obj of
        None \<Rightarrow> None
      | Some od \<Rightarrow> Some (objs(obj \<mapsto> od\<lparr>mark_word := m\<rparr>)))"

type_synonym PreservedMarks = "(addr \<times> markWord) list"

definition push_if_necessary :: "PreservedMarks \<Rightarrow> addr \<Rightarrow> markWord \<Rightarrow> PreservedMarks" where
  "push_if_necessary pm obj m = (if must_be_preserved m then (obj, m) # pm else pm)"

fun adjust_during_full_gc :: "(addr \<rightharpoonup> oopDesc) \<Rightarrow> PreservedMarks \<Rightarrow> PreservedMarks option" where
  "adjust_during_full_gc objs [] = Some []"
| "adjust_during_full_gc objs ((obj, m) # pm) =
     (case forwardee_of objs obj of
        None \<Rightarrow> None
      | Some f \<Rightarrow>
          (case adjust_during_full_gc objs pm of
             None \<Rightarrow> None
           | Some pm' \<Rightarrow> Some ((case f of None \<Rightarrow> obj | Some fwd \<Rightarrow> fwd, m) # pm')))"

fun restore :: "PreservedMarks \<Rightarrow> (addr \<rightharpoonup> oopDesc) \<Rightarrow> (addr \<rightharpoonup> oopDesc) option" where
  "restore [] objs = Some objs"
| "restore ((obj, m) # pm) objs =
     (case set_mark objs obj m of
        None \<Rightarrow> None
      | Some objs' \<Rightarrow> restore pm objs')"

section \<open>Step 2: calculate new locations\<close>

text \<open>
  \<open>EpsilonCalcNewLocationObjectClosure::do_object\<close>: the closure state is the compact
  point and the preserved marks.
\<close>

definition calc_do_object ::
  "addr \<Rightarrow> (addr \<rightharpoonup> oopDesc) \<times> addr \<times> PreservedMarks \<Rightarrow>
   ((addr \<rightharpoonup> oopDesc) \<times> addr \<times> PreservedMarks) option" where
  "calc_do_object obj c =
     (case c of (objs, compact_point, preserved_marks) \<Rightarrow>
        (case (if obj \<noteq> compact_point
               then (case objs obj of
                       None \<Rightarrow> None
                     | Some od \<Rightarrow>
                         (case forward_to objs obj compact_point of
                            None \<Rightarrow> None
                          | Some objs' \<Rightarrow>
                              Some (objs', push_if_necessary preserved_marks obj (mark_word od))))
               else Some (objs, preserved_marks)) of
           None \<Rightarrow> None
         | Some (objs', pm') \<Rightarrow>
             (case objs' obj of
                None \<Rightarrow> None
              | Some od' \<Rightarrow> Some (objs', compact_point + obj_size od', pm'))))"

section \<open>Step 3: adjust pointers\<close>

text \<open>
  \<open>EpsilonAdjustPointersOopClosure::do_oop_work\<close> reads the forwarding data of the
  referenced object from the heap memory \<open>objs\<close> and rewrites the slot; the closure has
  no state of its own. \<open>EpsilonAdjustPointersObjectClosure::do_object\<close> applies it to the
  fields of one object; the writes go to the slots of that object only, so the memory
  the closure reads during one object is the memory at the start of that object.
\<close>

definition adjust_do_oop_work :: "(addr \<rightharpoonup> oopDesc) \<Rightarrow> slot \<Rightarrow> unit \<Rightarrow> (slot \<times> unit) option" where
  "adjust_do_oop_work objs p c =
     (case p of
        None \<Rightarrow> Some (p, c)
      | Some obj \<Rightarrow>
          (case forwardee_of objs obj of
             None \<Rightarrow> None
           | Some None \<Rightarrow> Some (p, c)
           | Some (Some fwd) \<Rightarrow> Some (Some fwd, c)))"

definition adjust_do_object ::
  "addr \<Rightarrow> (addr \<rightharpoonup> oopDesc) \<times> unit \<Rightarrow> ((addr \<rightharpoonup> oopDesc) \<times> unit) option" where
  "adjust_do_object obj c = oop_iterate (adjust_do_oop_work (fst c)) obj c"

section \<open>Step 4: move objects\<close>

text \<open>
  \<open>Copy::aligned_conjoint_words\<close> copies \<open>n\<close> words from \<open>src\<close> to \<open>dst\<close>, the ranges may
  overlap. The heap memory is kept per object, so the copy places the source object at
  \<open>dst\<close> and destroys every other object whose words intersect the destination range.
\<close>

definition aligned_conjoint_words ::
  "(addr \<rightharpoonup> oopDesc) \<Rightarrow> addr \<Rightarrow> addr \<Rightarrow> nat \<Rightarrow> (addr \<rightharpoonup> oopDesc)" where
  "aligned_conjoint_words objs src dst n =
     (\<lambda>a. if a = dst then objs src
          else (case objs a of
                  None \<Rightarrow> None
                | Some od \<Rightarrow> if a < dst + n \<and> dst < a + obj_size od then None else Some od))"

text \<open>\<open>EpsilonMoveObjectsObjectClosure::do_object\<close>: the closure state is \<open>_moved\<close>.\<close>

definition move_do_object ::
  "addr \<Rightarrow> (addr \<rightharpoonup> oopDesc) \<times> nat \<Rightarrow> ((addr \<rightharpoonup> oopDesc) \<times> nat) option" where
  "move_do_object obj c =
     (case c of (objs, moved) \<Rightarrow>
        (case forwardee_of objs obj of
           None \<Rightarrow> None
         | Some None \<Rightarrow> Some (objs, moved)
         | Some (Some fwd) \<Rightarrow>
             (case objs obj of
                None \<Rightarrow> None
              | Some od \<Rightarrow>
                  (case init_mark (aligned_conjoint_words objs obj fwd (obj_size od)) fwd of
                     None \<Rightarrow> None
                   | Some objs' \<Rightarrow> Some (objs', moved + 1)))))"

section \<open>Step 5: verification\<close>

text \<open>
  \<open>EpsilonVerifyOopClosure::do_oop_work\<close>; a failed \<open>guarantee\<close> is fatal. \<open>is_in\<close> is the
  test of the allocation space (\<open>bottom \<le> p < top\<close>), \<open>is_oop\<close> holds where the memory
  holds an object.
\<close>

definition verify_do_oop_work ::
  "addr \<Rightarrow> addr \<Rightarrow> (addr \<rightharpoonup> oopDesc) \<Rightarrow> slot \<Rightarrow> MarkBitMap \<times> addr list \<Rightarrow>
   (slot \<times> MarkBitMap \<times> addr list) option" where
  "verify_do_oop_work bottom top_addr objs p c =
     (case c of (bm, stack) \<Rightarrow>
        (case p of
           None \<Rightarrow> Some (p, bm, stack)
         | Some obj \<Rightarrow>
             if \<not> covers bm obj then None
             else if \<not> is_marked bm obj
             then (let bm' = mark bm obj in
                   if \<not> (bottom \<le> obj \<and> obj < top_addr) then None
                   else (case objs obj of
                           None \<Rightarrow> None
                         | Some od \<Rightarrow>
                             if mark_is_marked (mark_word od) then None
                             else Some (p, bm', obj # stack)))
             else Some (p, bm, stack)))"

lemma verify_do_oop_work_measure:
  "verify_do_oop_work b t objs p (bm, stack) = Some (p', bm', stack') \<Longrightarrow>
   covered_start bm' = covered_start bm \<and> covered_end bm' = covered_end bm \<and>
   unmarked_count bm' + length stack' = unmarked_count bm + length stack"
proof (cases p)
  case None
  assume "verify_do_oop_work b t objs p (bm, stack) = Some (p', bm', stack')"
  with None show ?thesis by (simp add: verify_do_oop_work_def)
next
  case (Some obj)
  assume a: "verify_do_oop_work b t objs p (bm, stack) = Some (p', bm', stack')"
  show ?thesis
  proof (cases "is_marked bm obj")
    case True
    with a Some show ?thesis
      by (simp add: verify_do_oop_work_def split: if_splits)
  next
    case False
    with a Some have "scan_do_oop_work p (bm, stack) = Some (p', bm', stack')"
      by (auto simp: verify_do_oop_work_def scan_do_oop_work_def Let_def
          split: if_splits option.splits)
    then show ?thesis by (rule scan_do_oop_work_measure)
  qed
qed

lemma slots_do_verify_measure:
  "slots_do (verify_do_oop_work b t objs) ps (bm, stack) = Some (ps', bm', stack') \<Longrightarrow>
   covered_start bm' = covered_start bm \<and> covered_end bm' = covered_end bm \<and>
   unmarked_count bm' + length stack' = unmarked_count bm + length stack"
proof (induction ps arbitrary: bm stack ps')
  case Nil
  then show ?case by simp
next
  case (Cons p ps)
  from Cons.prems obtain p1 bm1 st1 ps1 where
    h: "verify_do_oop_work b t objs p (bm, stack) = Some (p1, bm1, st1)"
    and r: "slots_do (verify_do_oop_work b t objs) ps (bm1, st1) = Some (ps1, bm', stack')"
    by (auto split: option.splits)
  from verify_do_oop_work_measure [OF h] Cons.IH [OF r] show ?case by simp
qed

text \<open>
  The loop of the verification: as the loop of step 1, with the verifying closure. The
  closure reads the heap memory as it is when the object is popped.
\<close>

function verify_loop ::
  "addr \<Rightarrow> addr \<Rightarrow> (addr \<rightharpoonup> oopDesc) \<times> MarkBitMap \<times> addr list \<times> nat \<Rightarrow>
   ((addr \<rightharpoonup> oopDesc) \<times> MarkBitMap \<times> addr list \<times> nat) option" where
  "verify_loop b t (objs, bm, stack, n) =
     (case stack of
        [] \<Rightarrow> Some (objs, bm, stack, n)
      | obj # rest \<Rightarrow>
          (case oop_iterate (verify_do_oop_work b t objs) obj (objs, (bm, rest)) of
             None \<Rightarrow> None
           | Some (objs', (bm', stack')) \<Rightarrow> verify_loop b t (objs', bm', stack', n + 1)))"
  by pat_completeness auto
termination
proof (relation "measure (\<lambda>(b, t, objs, bm, stack, n). unmarked_count bm + length stack)")
  show "wf (measure (\<lambda>(b, t, objs, bm, stack, n). unmarked_count bm + length stack))" by simp
next
  fix b t :: addr and objs :: "addr \<rightharpoonup> oopDesc" and bm stack and n :: nat
    and obj rest x2 objs' y bm' stack'
  assume st: "stack = obj # rest"
    and it: "oop_iterate (verify_do_oop_work b t objs) obj (objs, bm, rest) = Some x2"
    and x2: "(objs', y) = x2" and y: "(bm', stack') = y"
  from it x2 y obtain od :: oopDesc and fs where
    "slots_do (verify_do_oop_work b t objs) (oop_fields od) (bm, rest) = Some (fs, bm', stack')"
    by (auto simp: oop_iterate_def split: option.splits)
  from slots_do_verify_measure [OF this] st
  show "((b, t, objs', bm', stack', n + 1), (b, t, objs, bm, stack, n))
        \<in> measure (\<lambda>(b, t, objs, bm, stack, n). unmarked_count bm + length stack)"
    by simp
qed

declare verify_loop.simps [simp del]

section \<open>The collection cycle\<close>

text \<open>
  Modelled from the spec: the accessors of \<open>epsilonHeap.hpp\<close>, \<open>ContiguousSpace\<close> and
  \<open>VirtualSpace\<close> are not part of the sources at hand. \<open>used\<close> is the byte size of
  \<open>[bottom, top)\<close>, \<open>capacity\<close> the committed and \<open>max_capacity\<close> the reserved byte size
  of the virtual space. \<open>expand_by\<close> commits more bytes at the frontier and fails when the
  reservation is exhausted or the commit fails; \<open>shrink_by\<close> uncommits at the tail and
  is fatal when asked for more than is committed. \<open>par_allocate\<close> advances \<open>top\<close> by
  \<open>n\<close> words when \<open>top + n \<le> end\<close> and returns null otherwise.
\<close>

definition used :: "EpsilonHeap \<Rightarrow> nat" where
  "used s = size_t_mul (size_t_sub (space_top s) (space_bottom s)) HeapWordSize"

definition capacity :: "EpsilonHeap \<Rightarrow> nat" where
  "capacity s = size_t_sub (vs_high s) (vs_low s)"

definition max_capacity :: "EpsilonHeap \<Rightarrow> nat" where
  "max_capacity s = size_t_sub (vs_high_boundary s) (vs_low s)"

definition expand_by :: "os_answers \<Rightarrow> nat \<Rightarrow> EpsilonHeap \<Rightarrow> bool \<times> EpsilonHeap" where
  "expand_by os bytes s =
     (if size_t_sub (max_capacity s) (capacity s) < bytes \<or> \<not> commit_ok os then (False, s)
      else (True, s\<lparr>vs_high := vs_high s + bytes\<rparr>))"

definition shrink_by :: "nat \<Rightarrow> EpsilonHeap \<Rightarrow> EpsilonHeap option" where
  "shrink_by bytes s =
     (if capacity s < bytes then None else Some (s\<lparr>vs_high := vs_high s - bytes\<rparr>))"

definition set_end :: "addr \<Rightarrow> EpsilonHeap \<Rightarrow> EpsilonHeap" where
  "set_end a s = s\<lparr>space_end := a\<rparr>"

definition set_top :: "addr \<Rightarrow> EpsilonHeap \<Rightarrow> EpsilonHeap" where
  "set_top a s = s\<lparr>space_top := a\<rparr>"

definition par_allocate :: "nat \<Rightarrow> EpsilonHeap \<Rightarrow> addr option \<times> EpsilonHeap" where
  "par_allocate n s =
     (if space_top s + n \<le> space_end s
      then (Some (space_top s), s\<lparr>space_top := space_top s + n\<rparr>)
      else (None, s))"

definition log_emit :: "log_line \<Rightarrow> EpsilonHeap \<Rightarrow> EpsilonHeap" where
  "log_emit l s = s\<lparr>gc_log := gc_log s @ [l]\<rparr>"

text \<open>\<open>EpsilonHeap::print_heap_info\<close> and \<open>EpsilonHeap::print_metaspace_info\<close>.\<close>

definition print_heap_info :: "nat \<Rightarrow> EpsilonHeap \<Rightarrow> EpsilonHeap" where
  "print_heap_info u s =
     (let reserved = max_capacity s; committed = capacity s in
      if reserved \<noteq> 0 then log_emit (LogHeapInfo reserved committed u) s
      else log_emit (LogInfo ''Heap: no reliable data'') s)"

definition print_metaspace_info :: "EpsilonHeap \<Rightarrow> EpsilonHeap" where
  "print_metaspace_info s = log_emit LogMetaspaceInfo s"

text \<open>
  Step 0 of \<open>EpsilonHeap::entry_collect\<close>. The result is \<open>None\<close> when the cycle is
  abandoned. A successful commit hands out the bitmap memory cleared, as the comment of
  the source states. \<open>ensure_parsability\<close> retires the TLABs, which this model does not
  keep apart from the rest of the space.
\<close>

definition step0_prologue :: "os_answers \<Rightarrow> EpsilonHeap \<Rightarrow> EpsilonHeap option" where
  "step0_prologue os s =
     (if \<not> commit_ok os then None
      else Some (s\<lparr>bitmap := clear_bitmap (bitmap s)\<rparr>))"

definition step1_mark :: "EpsilonHeap \<Rightarrow> (EpsilonHeap \<times> nat \<times> nat) option" where
  "step1_mark s =
     (case process_roots scan_do_oop_work False (roots s) (bitmap s, []) of
        None \<Rightarrow> None
      | Some (rs, (bm, stack)) \<Rightarrow>
          (let stat_reachable_roots = length stack in
           case mark_loop (objects s, bm, stack, 0) of
             None \<Rightarrow> None
           | Some (objs, bm', stack', stat_reachable_heap) \<Rightarrow>
               Some (s\<lparr>roots := rs, objects := objs, bitmap := bm'\<rparr>,
                     stat_reachable_roots, stat_reachable_heap)))"

definition step2_calc :: "EpsilonHeap \<Rightarrow> (EpsilonHeap \<times> addr \<times> PreservedMarks) option" where
  "step2_calc s =
     (case walk_bitmap (bitmap s) (space_bottom s) (space_top s) calc_do_object
             (objects s, space_bottom s, []) of
        None \<Rightarrow> None
      | Some (objs, compact_point, preserved_marks) \<Rightarrow>
          Some (s\<lparr>objects := objs\<rparr>, compact_point, preserved_marks))"

definition step3_adjust :: "EpsilonHeap \<Rightarrow> PreservedMarks \<Rightarrow> (EpsilonHeap \<times> PreservedMarks) option" where
  "step3_adjust s preserved_marks =
     (case walk_bitmap (bitmap s) (space_bottom s) (space_top s) adjust_do_object
             (objects s, ()) of
        None \<Rightarrow> None
      | Some (objs, u) \<Rightarrow>
          (case process_roots (adjust_do_oop_work objs) True (roots s) () of
             None \<Rightarrow> None
           | Some (rs, u') \<Rightarrow>
               (case adjust_during_full_gc objs preserved_marks of
                  None \<Rightarrow> None
                | Some pm \<Rightarrow> Some (s\<lparr>objects := objs, roots := rs\<rparr>, pm))))"

definition step4_move :: "EpsilonHeap \<Rightarrow> addr \<Rightarrow> (EpsilonHeap \<times> nat) option" where
  "step4_move s new_top =
     (case walk_bitmap (bitmap s) (space_bottom s) (space_top s) move_do_object
             (objects s, 0) of
        None \<Rightarrow> None
      | Some (objs, moved) \<Rightarrow> Some (set_top new_top (s\<lparr>objects := objs\<rparr>), moved))"

definition verify_heap :: "EpsilonHeap \<Rightarrow> nat \<Rightarrow> nat \<Rightarrow> EpsilonHeap option" where
  "verify_heap s stat_reachable_roots stat_reachable_heap =
     (let bm0 = clear_bitmap (bitmap s);
          cl = verify_do_oop_work (space_bottom s) (space_top s) (objects s) in
      case process_roots cl False (roots s) (bm0, []) of
        None \<Rightarrow> None
      | Some (rs, (bm, stack)) \<Rightarrow>
          (let verified_roots = length stack in
           if verified_roots \<noteq> stat_reachable_roots then None
           else (case verify_loop (space_bottom s) (space_top s) (objects s, bm, stack, 0) of
                   None \<Rightarrow> None
                 | Some (objs, bm', stack', verified_heap) \<Rightarrow>
                     if verified_heap \<noteq> stat_reachable_heap then None
                     else Some (s\<lparr>roots := rs, objects := objs, bitmap := bm'\<rparr>))))"

definition step5_epilogue ::
  "flags \<Rightarrow> os_answers \<Rightarrow> EpsilonHeap \<Rightarrow> PreservedMarks \<Rightarrow> addr \<Rightarrow> nat \<Rightarrow> nat \<Rightarrow>
   EpsilonHeap option" where
  "step5_epilogue fl os s preserved_marks new_top stat_reachable_roots stat_reachable_heap =
     (case restore preserved_marks (objects s) of
        None \<Rightarrow> None
      | Some objs \<Rightarrow>
          (case (if EpsilonVerify fl
                 then verify_heap (s\<lparr>objects := objs\<rparr>) stat_reachable_roots stat_reachable_heap
                 else Some (s\<lparr>objects := objs\<rparr>)) of
             None \<Rightarrow> None
           | Some s1 \<Rightarrow>
               (let s2 = (if \<not> uncommit_ok os
                          then log_emit (LogWarning
                                 ''Could not uncommit native memory for marking bitmap'') s1
                          else s1\<lparr>bitmap := clear_bitmap (bitmap s1)\<rparr>)
                in if EpsilonUncommit fl
                   then (case shrink_by
                                (size_t_mul (size_t_sub (space_end s2) new_top) HeapWordSize) s2 of
                           None \<Rightarrow> None
                         | Some s3 \<Rightarrow> Some (set_end (vs_high s3 div HeapWordSize) s3))
                   else Some s2)))"

datatype GCCause =
    metadata_GC_threshold
  | metadata_GC_clear_soft_refs
  | allocation_failure
  | java_lang_system_gc

text \<open>\<open>EpsilonHeap::entry_collect\<close>.\<close>

definition entry_collect :: "flags \<Rightarrow> os_answers \<Rightarrow> GCCause \<Rightarrow> EpsilonHeap \<Rightarrow> EpsilonHeap option" where
  "entry_collect fl os cause s =
     (if GCLocker_is_active s then Some s
      else
        (case step0_prologue os s of
           None \<Rightarrow>
             Some (log_emit (LogWarning
               ''Could not commit native memory for marking bitmap, GC failed'') s)
         | Some s0 \<Rightarrow>
             (case step1_mark s0 of
                None \<Rightarrow> None
              | Some (s1, stat_reachable_roots, stat_reachable_heap) \<Rightarrow>
                  (case step2_calc s1 of
                     None \<Rightarrow> None
                   | Some (s2, new_top, pm2) \<Rightarrow>
                       (let stat_preserved_marks = length pm2 in
                        case step3_adjust s2 pm2 of
                          None \<Rightarrow> None
                        | Some (s3, pm3) \<Rightarrow>
                            (case step4_move s3 new_top of
                               None \<Rightarrow> None
                             | Some (s4, stat_moved) \<Rightarrow>
                                 (case step5_epilogue fl os s4 pm3 new_top
                                         stat_reachable_roots stat_reachable_heap of
                                    None \<Rightarrow> None
                                  | Some s5 \<Rightarrow>
                                      (let s6 = log_emit (LogGCStats stat_reachable_roots
                                                  stat_reachable_heap stat_moved
                                                  stat_preserved_marks) s5;
                                           s7 = print_heap_info (used s6) s6
                                       in Some (print_metaspace_info s7)))))))))"

section \<open>The request coalescer\<close>

text \<open>
  \<open>VM_EpsilonCollect::doit_prologue\<close>. The first load of the request id happens before the
  heap lock is taken, so other requests may run in between: \<open>id0\<close> is the value that
  load returned, and \<open>s\<close> is the state in which the lock is granted. The result is the
  returned flag and the state the prologue leaves.
\<close>

definition doit_prologue :: "nat \<Rightarrow> EpsilonHeap \<Rightarrow> bool \<times> EpsilonHeap" where
  "doit_prologue id0 s =
     (let s1 = s\<lparr>heap_lock_held := True\<rparr> in
      if id0 < req_id s1
      then (False, s1\<lparr>heap_lock_held := False\<rparr>)
      else (True, s1\<lparr>req_id := size_t_inc (req_id s1)\<rparr>))"

definition doit_epilogue :: "EpsilonHeap \<Rightarrow> EpsilonHeap" where
  "doit_epilogue s = s\<lparr>heap_lock_held := False\<rparr>"

text \<open>
  \<open>EpsilonHeap::vmentry_collect\<close>: \<open>VMThread::execute\<close> runs the prologue in the
  requesting thread, the operation itself (\<open>doit\<close>, that is \<open>entry_collect\<close>) in the VM
  thread when the prologue returned true, and then the epilogue. With no other thread in
  between, the request id the prologue loads first is the one of the state it starts in.
\<close>

definition vmentry_collect :: "flags \<Rightarrow> os_answers \<Rightarrow> GCCause \<Rightarrow> EpsilonHeap \<Rightarrow> EpsilonHeap option" where
  "vmentry_collect fl os cause s =
     (case doit_prologue (req_id s) s of
        (False, s1) \<Rightarrow> Some s1
      | (True, s1) \<Rightarrow>
          (case entry_collect fl os cause s1 of
             None \<Rightarrow> None
           | Some s2 \<Rightarrow> Some (doit_epilogue s2)))"

section \<open>Allocation\<close>

text \<open>
  The loop of \<open>EpsilonHeap::allocate_work\<close>. It may run forever (an expansion that
  fails is only asserted, and the loop goes round again), so not returning is the value
  \<open>None\<close>; a returned null is \<open>Some (None, s)\<close>.
\<close>

partial_function (option) allocate_work_loop ::
  "flags \<Rightarrow> os_answers \<Rightarrow> nat \<Rightarrow> EpsilonHeap \<Rightarrow> (addr option \<times> EpsilonHeap) option" where
  "allocate_work_loop fl os sz s =
     (case par_allocate sz s of
        (Some res, s1) \<Rightarrow> Some (Some res, s1)
      | (None, s1) \<Rightarrow>
          (case par_allocate sz s1 of
             (Some res, s2) \<Rightarrow> Some (Some res, s2)
           | (None, s2) \<Rightarrow>
               (let size_in_bytes = size_t_mul sz HeapWordSize;
                    uncommitted_space = size_t_sub (max_capacity s2) (capacity s2);
                    unused_space = size_t_sub (max_capacity s2) (used s2);
                    want_space = max size_in_bytes (EpsilonMinHeapExpand fl)
                in if want_space < uncommitted_space
                   then (let s3 = snd (expand_by os want_space s2)
                         in allocate_work_loop fl os sz
                              (set_end (vs_high s3 div HeapWordSize) s3))
                   else if size_in_bytes < unused_space
                   then (let s3 = snd (expand_by os uncommitted_space s2)
                         in allocate_work_loop fl os sz
                              (set_end (vs_high s3 div HeapWordSize) s3))
                   else Some (None, s2))))"

text \<open>
  \<open>EpsilonHeap::allocate_work\<close>: the loop, then the two watermark updates. With one
  thread the compare-and-exchange always succeeds.
\<close>

definition allocate_work ::
  "flags \<Rightarrow> os_answers \<Rightarrow> nat \<Rightarrow> bool \<Rightarrow> EpsilonHeap \<Rightarrow> (addr option \<times> EpsilonHeap) option" where
  "allocate_work fl os sz verbose s =
     (case allocate_work_loop fl os sz s of
        None \<Rightarrow> None
      | Some (None, s1) \<Rightarrow> Some (None, s1)
      | Some (Some res, s1) \<Rightarrow>
          (let u = used s1;
               s2 = (if verbose \<and> step_counter_update fl \<le> size_t_sub u (last_counter_update s1)
                     then s1\<lparr>last_counter_update := u, counter_updates := counter_updates s1 + 1\<rparr>
                     else s1);
               s3 = (if verbose \<and> step_heap_print fl \<le> size_t_sub u (last_heap_print s2)
                     then print_metaspace_info (print_heap_info u (s2\<lparr>last_heap_print := u\<rparr>))
                     else s2)
           in Some (Some res, s3)))"

text \<open>
  \<open>EpsilonHeap::allocate_or_collect_work\<close>; the first call of \<open>allocate_work\<close> takes the
  default of \<open>verbose\<close>, which is true.
\<close>

definition allocate_or_collect_work ::
  "flags \<Rightarrow> os_answers \<Rightarrow> nat \<Rightarrow> bool \<Rightarrow> EpsilonHeap \<Rightarrow> (addr option \<times> EpsilonHeap) option" where
  "allocate_or_collect_work fl os sz verbose s =
     (case allocate_work fl os sz True s of
        None \<Rightarrow> None
      | Some (res, s1) \<Rightarrow>
          if res = None \<and> EpsilonSlidingGC fl \<and> EpsilonImplicitGC fl
          then (case vmentry_collect fl os allocation_failure s1 of
                  None \<Rightarrow> None
                | Some s2 \<Rightarrow>
                    (case allocate_work fl os sz verbose (GCLocker_block s2) of
                       None \<Rightarrow> None
                     | Some (res', s3) \<Rightarrow> Some (res', GCLocker_unblock s3)))
          else Some (res, s1))"

definition mem_allocate ::
  "flags \<Rightarrow> os_answers \<Rightarrow> nat \<Rightarrow> EpsilonHeap \<Rightarrow> (addr option \<times> EpsilonHeap) option" where
  "mem_allocate fl os sz s = allocate_or_collect_work fl os sz True s"

text \<open>\<open>EpsilonHeap::collect\<close>; \<open>at_safepoint\<close> is \<open>SafepointSynchronize::is_at_safepoint()\<close>.\<close>

definition collect ::
  "flags \<Rightarrow> os_answers \<Rightarrow> bool \<Rightarrow> GCCause \<Rightarrow> EpsilonHeap \<Rightarrow> EpsilonHeap option" where
  "collect fl os at_safepoint cause s =
     (case (case cause of
              metadata_GC_threshold \<Rightarrow>
                Some (print_metaspace_info (log_emit (LogInfo ''GC request is handled'') s))
            | metadata_GC_clear_soft_refs \<Rightarrow>
                Some (print_metaspace_info (log_emit (LogInfo ''GC request is handled'') s))
            | _ \<Rightarrow>
                if EpsilonSlidingGC fl
                then (if at_safepoint then entry_collect fl os cause s
                      else vmentry_collect fl os cause s)
                else Some (log_emit (LogInfo ''GC request is ignored'') s)) of
        None \<Rightarrow> None
      | Some s1 \<Rightarrow> Some (s1\<lparr>counter_updates := counter_updates s1 + 1\<rparr>))"

section \<open>TLAB sizing\<close>

text \<open>
  \<open>clamp\<close> and \<open>align_up\<close> of \<open>globalDefinitions.hpp\<close> and \<open>align.hpp\<close>, which are not
  part of the sources at hand: \<open>clamp\<close> asserts \<open>min \<le> max\<close> and returns
  \<open>MIN2(MAX2(value, min), max)\<close>; \<open>align_up\<close> rounds up to a multiple of the alignment.
\<close>

definition clamp :: "nat \<Rightarrow> nat \<Rightarrow> nat \<Rightarrow> nat" where
  "clamp v lo hi = min (max v lo) hi"

definition align_up :: "nat \<Rightarrow> nat \<Rightarrow> nat" where
  "align_up v a = ((v + a - 1) div a) * a"

definition set_ergo_tlab_size :: "nat \<Rightarrow> nat \<Rightarrow> EpsilonHeap \<Rightarrow> EpsilonHeap" where
  "set_ergo_tlab_size thread v s = s\<lparr>tld := (tld s)(thread := (tld s thread)\<lparr>ergo_tlab_size := v\<rparr>)\<rparr>"

definition set_last_tlab_time :: "nat \<Rightarrow> int \<Rightarrow> EpsilonHeap \<Rightarrow> EpsilonHeap" where
  "set_last_tlab_time thread v s = s\<lparr>tld := (tld s)(thread := (tld s thread)\<lparr>last_tlab_time := v\<rparr>)\<rparr>"

text \<open>
  \<open>EpsilonHeap::allocate_new_tlab\<close>, in three parts. \<open>tlab_ergo\<close> is the part that loads
  the ergonomic size of the calling thread and applies the decay; it yields
  \<open>ergo_tlab\<close>, \<open>time\<close> and the state. \<open>now\<close> is what \<open>os::javaTimeNanos()\<close> returns.
\<close>

definition tlab_ergo :: "flags \<Rightarrow> int \<Rightarrow> nat \<Rightarrow> nat \<Rightarrow> EpsilonHeap \<Rightarrow> nat \<times> int \<times> EpsilonHeap" where
  "tlab_ergo fl now thread requested_size s =
     (if EpsilonElasticTLAB fl
      then (let ergo_tlab = ergo_tlab_size (tld s thread) in
            if EpsilonElasticTLABDecay fl
            then (let last_time = last_tlab_time (tld s thread);
                      time = now
                  in if last_time \<noteq> 0 \<and> time - last_time > decay_time_ns fl
                     then (0, time, set_ergo_tlab_size thread 0 s)
                     else (ergo_tlab, time, s))
            else (ergo_tlab, 0, s))
      else (requested_size, 0, s))"

text \<open>The size of the TLAB to ask for, and whether the request fits: \<open>(fits, size)\<close>.\<close>

definition tlab_size :: "flags \<Rightarrow> nat \<Rightarrow> nat \<Rightarrow> nat \<Rightarrow> bool \<times> nat" where
  "tlab_size fl min_size requested_size ergo_tlab =
     (let fits = (if EpsilonElasticTLAB fl then requested_size \<le> ergo_tlab else True);
          sz = (if EpsilonElasticTLAB fl \<and> \<not> fits then tlab_elasticity fl ergo_tlab
                else requested_size);
          sz1 = clamp sz min_size (max_tlab_size fl);
          sz2 = align_up sz1 (MinObjAlignment fl)
      in (fits, sz2))"

definition allocate_new_tlab ::
  "flags \<Rightarrow> os_answers \<Rightarrow> int \<Rightarrow> nat \<Rightarrow> nat \<Rightarrow> nat \<Rightarrow> EpsilonHeap \<Rightarrow>
   ((addr option \<times> nat option) \<times> EpsilonHeap) option" where
  "allocate_new_tlab fl os now thread min_size requested_size s =
     (case tlab_ergo fl now thread requested_size s of
        (ergo_tlab, time, s1) \<Rightarrow>
          (case tlab_size fl min_size requested_size ergo_tlab of
             (fits, sz) \<Rightarrow>
               (let s2 = (if log_trace_gc fl
                          then log_emit (LogTLAB requested_size min_size (max_tlab_size fl)
                                           ergo_tlab sz) s1
                          else s1)
                in case allocate_or_collect_work fl os sz True s2 of
                     None \<Rightarrow> None
                   | Some (Some res, s3) \<Rightarrow>
                       (let s4 = (if EpsilonElasticTLABDecay fl
                                  then set_last_tlab_time thread time s3 else s3);
                            s5 = (if EpsilonElasticTLAB fl \<and> \<not> fits
                                  then set_ergo_tlab_size thread sz s4 else s4)
                        in Some ((Some res, Some sz), s5))
                   | Some (None, s3) \<Rightarrow>
                       Some ((None, None),
                             if EpsilonElasticTLAB fl then set_ergo_tlab_size thread 0 s3
                             else s3))))"

section \<open>The diagnostic primitive getReferencedObjects\<close>

text \<open>
  An instance class with the number of its own nonstatic oop fields and its superclass.
  \<open>NetShipilevMagic_getReferencedObjects\<close> receives the object, given by its class and
  the contents of its nonstatic oop fields in the order \<open>oop_oop_iterate\<close> visits them,
  and the buffer array. It returns the \<open>jint\<close> and the buffer; \<open>None\<close> is a store
  outside the bounds of the buffer.
\<close>

datatype InstanceKlass =
  InstanceKlass (nonstatic_oop_field_count: int) (super: "InstanceKlass option")

fun count_supers :: "InstanceKlass option \<Rightarrow> int \<Rightarrow> int" where
  "count_supers None count = count"
| "count_supers (Some (InstanceKlass c ik)) count = count_supers ik (count + c)"

text \<open>\<open>GetReferencedObjectsClosure::do_oop_nv\<close>: the state is \<open>_result\<close> and \<open>_count\<close>.\<close>

definition do_oop_nv :: "slot \<Rightarrow> slot list \<times> nat \<Rightarrow> (slot \<times> slot list \<times> nat) option" where
  "do_oop_nv p c =
     (case c of (result, count) \<Rightarrow>
        (case p of
           None \<Rightarrow> Some (p, result, count)
         | Some obj \<Rightarrow>
             if count < length result then Some (p, result[count := Some obj], count + 1)
             else None))"

definition getReferencedObjects ::
  "InstanceKlass \<Rightarrow> slot list \<Rightarrow> slot list \<Rightarrow> (int \<times> slot list) option" where
  "getReferencedObjects k obj_fields ref_buf =
     (let count = count_supers (Some k) 0 in
      if count = 0 then Some (0, ref_buf)
      else if count > int (length ref_buf) then Some (- 1, ref_buf)
      else (case slots_do do_oop_nv obj_fields (ref_buf, 0) of
              None \<Rightarrow> None
            | Some (fs, result, n) \<Rightarrow> Some (int n, result)))"

section \<open>Reachability\<close>

text \<open>
  The objects reachable from the root slots through reference fields, and the targets of
  a sequence of slots.
\<close>

inductive_set reachable :: "(addr \<rightharpoonup> oopDesc) \<Rightarrow> slot list \<Rightarrow> addr set"
  for objs :: "addr \<rightharpoonup> oopDesc" and rs :: "slot list" where
  root: "Some r \<in> set rs \<Longrightarrow> r \<in> reachable objs rs"
| field: "a \<in> reachable objs rs \<Longrightarrow> objs a = Some od \<Longrightarrow> Some t \<in> set (oop_fields od) \<Longrightarrow>
          t \<in> reachable objs rs"

definition targets :: "slot list \<Rightarrow> addr set" where
  "targets ps = {t. Some t \<in> set ps}"

lemma targets_simps [simp]:
  "targets [] = {}"
  "targets (None # ps) = targets ps"
  "targets (Some t # ps) = insert t (targets ps)"
  by (auto simp: targets_def)

lemma finite_targets [simp]: "finite (targets ps)"
proof (induction ps)
  case Nil
  show ?case by simp
next
  case (Cons p ps)
  then show ?case by (cases p) simp_all
qed

lemma covers_mark [simp]: "covers (mark bm a) b = covers bm b"
  by (simp add: covers_def mark_def)

lemma slots_do_scan_spec:
  assumes "\<forall>t \<in> targets ps. covers bm t"
  shows "\<exists>bm' st'. slots_do scan_do_oop_work ps (bm, st) = Some (ps, bm', st') \<and>
           covered_start bm' = covered_start bm \<and> covered_end bm' = covered_end bm \<and>
           bits bm' = bits bm \<union> targets ps \<and>
           set st' = set st \<union> (targets ps - bits bm) \<and>
           (distinct st \<and> set st \<subseteq> bits bm \<longrightarrow> distinct st') \<and>
           (finite (bits bm) \<longrightarrow> card (bits bm') + length st = card (bits bm) + length st')"
  using assms
proof (induction ps arbitrary: bm st)
  case Nil
  then show ?case by simp
next
  case (Cons p ps)
  show ?case
  proof (cases p)
    case None
    then have h: "scan_do_oop_work p (bm, st) = Some (p, bm, st)"
      by (simp add: scan_do_oop_work_def)
    from Cons.prems None have "\<forall>t \<in> targets ps. covers bm t" by simp
    from Cons.IH [OF this, of st] obtain bm' st' where
      "slots_do scan_do_oop_work ps (bm, st) = Some (ps, bm', st')"
      "covered_start bm' = covered_start bm" "covered_end bm' = covered_end bm"
      "bits bm' = bits bm \<union> targets ps"
      "set st' = set st \<union> (targets ps - bits bm)"
      "distinct st \<and> set st \<subseteq> bits bm \<longrightarrow> distinct st'"
      "finite (bits bm) \<longrightarrow> card (bits bm') + length st = card (bits bm) + length st'"
      by blast
    with h None show ?thesis by simp
  next
    case (Some t)
    with Cons.prems have cov: "covers bm t" by simp
    show ?thesis
    proof (cases "is_marked bm t")
      case True
      with cov Some have h: "scan_do_oop_work p (bm, st) = Some (p, bm, st)"
        by (simp add: scan_do_oop_work_def)
      from Cons.prems Some have "\<forall>t \<in> targets ps. covers bm t" by simp
      from Cons.IH [OF this, of st] obtain bm' st' where
        "slots_do scan_do_oop_work ps (bm, st) = Some (ps, bm', st')"
        "covered_start bm' = covered_start bm" "covered_end bm' = covered_end bm"
        "bits bm' = bits bm \<union> targets ps"
        "set st' = set st \<union> (targets ps - bits bm)"
        "distinct st \<and> set st \<subseteq> bits bm \<longrightarrow> distinct st'"
        "finite (bits bm) \<longrightarrow> card (bits bm') + length st = card (bits bm) + length st'"
        by blast
      with h Some True show ?thesis by (auto simp: is_marked_def)
    next
      case False
      with cov Some have h: "scan_do_oop_work p (bm, st) = Some (p, mark bm t, t # st)"
        by (simp add: scan_do_oop_work_def)
      from Cons.prems Some have "\<forall>u \<in> targets ps. covers (mark bm t) u" by simp
      from Cons.IH [OF this, of "t # st"] obtain bm' st' where r:
        "slots_do scan_do_oop_work ps (mark bm t, t # st) = Some (ps, bm', st')"
        "covered_start bm' = covered_start (mark bm t)" "covered_end bm' = covered_end (mark bm t)"
        "bits bm' = bits (mark bm t) \<union> targets ps"
        "set st' = set (t # st) \<union> (targets ps - bits (mark bm t))"
        "distinct (t # st) \<and> set (t # st) \<subseteq> bits (mark bm t) \<longrightarrow> distinct st'"
        "finite (bits (mark bm t)) \<longrightarrow>
           card (bits bm') + length (t # st) = card (bits (mark bm t)) + length st'"
        by blast
      from False have nt: "t \<notin> bits bm" by (simp add: is_marked_def)
      have 1: "slots_do scan_do_oop_work (p # ps) (bm, st) = Some (p # ps, bm', st')"
        using h r(1) by simp
      have 2: "bits bm' = bits bm \<union> targets (p # ps)"
        using r(4) Some by (auto simp: mark_def)
      have 3: "set st' = set st \<union> (targets (p # ps) - bits bm)"
        using r(5) Some nt by (auto simp: mark_def)
      have 4: "distinct st \<and> set st \<subseteq> bits bm \<longrightarrow> distinct st'"
        using r(6) nt by (auto simp: mark_def)
      have 5: "finite (bits bm) \<longrightarrow> card (bits bm') + length st = card (bits bm) + length st'"
        using r(7) nt by (auto simp: mark_def)
      from 1 2 3 4 5 r(2,3) show ?thesis by (simp add: mark_def)
    qed
  qed
qed

definition mark_inv :: "(addr \<rightharpoonup> oopDesc) \<Rightarrow> slot list \<Rightarrow> MarkBitMap \<Rightarrow> addr list \<Rightarrow> nat \<Rightarrow> bool" where
  "mark_inv objs rs bm stack n =
     (distinct stack \<and> set stack \<subseteq> bits bm \<and> bits bm \<subseteq> reachable objs rs \<and>
      targets rs \<subseteq> bits bm \<and>
      (\<forall>a \<in> bits bm - set stack. \<forall>od. objs a = Some od \<longrightarrow> targets (oop_fields od) \<subseteq> bits bm) \<and>
      finite (bits bm) \<and> card (bits bm) = n + length stack)"

lemma covers_cong: "covered_start bm' = covered_start bm \<Longrightarrow> covered_end bm' = covered_end bm \<Longrightarrow>
  covers bm' a = covers bm a"
  by (simp add: covers_def)

lemma reachable_fields:
  "a \<in> reachable objs rs \<Longrightarrow> objs a = Some od \<Longrightarrow> targets (oop_fields od) \<subseteq> reachable objs rs"
  by (auto simp: targets_def intro: reachable.field)

lemma reachable_closed:
  assumes "targets rs \<subseteq> B"
    and "\<forall>a \<in> B. \<forall>od. objs a = Some od \<longrightarrow> targets (oop_fields od) \<subseteq> B"
  shows "reachable objs rs \<subseteq> B"
proof
  fix x assume "x \<in> reachable objs rs"
  then show "x \<in> B"
  proof (induction rule: reachable.induct)
    case (root r)
    with assms(1) show ?case by (auto simp: targets_def)
  next
    case (field a od t)
    with assms(2) show ?case by (auto simp: targets_def)
  qed
qed

lemma oop_iterate_scan:
  assumes "objs obj = Some od" and "\<forall>t \<in> targets (oop_fields od). covers bm t"
  shows "\<exists>bm' st'. oop_iterate scan_do_oop_work obj (objs, (bm, st)) = Some (objs, (bm', st')) \<and>
           slots_do scan_do_oop_work (oop_fields od) (bm, st) = Some (oop_fields od, bm', st')"
proof -
  from slots_do_scan_spec [OF assms(2), of st] obtain bm' st' where
    s: "slots_do scan_do_oop_work (oop_fields od) (bm, st) = Some (oop_fields od, bm', st')"
    by blast
  have "objs(obj \<mapsto> od\<lparr>oop_fields := oop_fields od\<rparr>) = objs"
    using assms(1) by (simp add: map_upd_triv)
  with s assms(1) show ?thesis by (simp add: oop_iterate_def)
qed

lemma mark_loop_correct:
  assumes "\<forall>a \<in> reachable objs rs. covers bm a \<and> objs a \<noteq> None"
    and "mark_inv objs rs bm stack n"
  shows "\<exists>bm'. mark_loop (objs, bm, stack, n) = Some (objs, bm', [], card (reachable objs rs)) \<and>
           bits bm' = reachable objs rs \<and>
           covered_start bm' = covered_start bm \<and> covered_end bm' = covered_end bm"
  using assms
proof (induction "unmarked_count bm + length stack" arbitrary: bm stack n rule: less_induct)
  case less
  note valid = less.prems(1) and inv = less.prems(2)
  let ?R = "reachable objs rs"
  show ?case
  proof (cases stack)
    case Nil
    with inv have closed: "\<forall>a \<in> bits bm. \<forall>od. objs a = Some od \<longrightarrow> targets (oop_fields od) \<subseteq> bits bm"
      and rts: "targets rs \<subseteq> bits bm" and sub: "bits bm \<subseteq> ?R" and c: "card (bits bm) = n"
      by (auto simp: mark_inv_def)
    from reachable_closed [OF rts closed] sub have "bits bm = ?R" by blast
    with c Nil show ?thesis by (subst mark_loop.simps) simp
  next
    case (Cons obj rest)
    with inv have d: "distinct rest" "obj \<notin> set rest" "set rest \<subseteq> bits bm" "obj \<in> bits bm"
      and sub: "bits bm \<subseteq> ?R" and rts: "targets rs \<subseteq> bits bm"
      and black: "\<forall>a \<in> bits bm - set stack. \<forall>od. objs a = Some od \<longrightarrow> targets (oop_fields od) \<subseteq> bits bm"
      and fin: "finite (bits bm)" and c: "card (bits bm) = n + length stack"
      by (auto simp: mark_inv_def)
    from d(4) sub have objR: "obj \<in> ?R" by blast
    with valid obtain od where od: "objs obj = Some od" by blast
    from reachable_fields [OF objR od] have tR: "targets (oop_fields od) \<subseteq> ?R" .
    with valid have cov: "\<forall>t \<in> targets (oop_fields od). covers bm t" by blast
    from oop_iterate_scan [where objs = objs and obj = obj and od = od and bm = bm and st = rest,
        OF od cov] obtain bm' st' where
      it: "oop_iterate scan_do_oop_work obj (objs, (bm, rest)) = Some (objs, (bm', st'))"
      and sl: "slots_do scan_do_oop_work (oop_fields od) (bm, rest) = Some (oop_fields od, bm', st')"
      by blast
    from slots_do_scan_spec [OF cov, of rest] sl have
      cs: "covered_start bm' = covered_start bm" and ce: "covered_end bm' = covered_end bm"
      and b': "bits bm' = bits bm \<union> targets (oop_fields od)"
      and s': "set st' = set rest \<union> (targets (oop_fields od) - bits bm)"
      and d': "distinct st'"
      and c': "card (bits bm') + length rest = card (bits bm) + length st'"
      using d fin by auto
    from slots_do_scan_measure [OF sl] Cons
    have dec: "unmarked_count bm' + length st' < unmarked_count bm + length stack" by simp
    have valid': "\<forall>a \<in> ?R. covers bm' a \<and> objs a \<noteq> None"
      using valid covers_cong [OF cs ce] by simp
    have black': "\<forall>a \<in> bits bm' - set st'. \<forall>od'. objs a = Some od' \<longrightarrow>
        targets (oop_fields od') \<subseteq> bits bm'"
    proof (intro ballI allI impI)
      fix a od' assume a: "a \<in> bits bm' - set st'" and o: "objs a = Some od'"
      from a b' s' have "a \<in> bits bm" "a \<notin> set rest" by auto
      show "targets (oop_fields od') \<subseteq> bits bm'"
      proof (cases "a = obj")
        case True
        with o od b' show ?thesis by auto
      next
        case False
        with \<open>a \<in> bits bm\<close> \<open>a \<notin> set rest\<close> Cons have "a \<in> bits bm - set stack" by simp
        with black o have "targets (oop_fields od') \<subseteq> bits bm" by blast
        with b' show ?thesis by blast
      qed
    qed
    have inv': "mark_inv objs rs bm' st' (n + 1)"
      unfolding mark_inv_def
      using d' s' b' sub tR rts black' fin c c' Cons d(3) by auto
    from less.hyps [OF dec valid' inv'] obtain bm'' where
      r: "mark_loop (objs, bm', st', n + 1) = Some (objs, bm'', [], card ?R)"
      "bits bm'' = ?R" "covered_start bm'' = covered_start bm'" "covered_end bm'' = covered_end bm'"
      by blast
    have "mark_loop (objs, bm, stack, n) = mark_loop (objs, bm', st', n + 1)"
      using Cons it by (subst mark_loop.simps) simp
    with r cs ce show ?thesis by simp
  qed
qed

definition mark_ok :: "EpsilonHeap \<Rightarrow> bool" where
  "mark_ok s = (bits (bitmap s) = {} \<and>
     (\<forall>a \<in> reachable (objects s) (roots s). covers (bitmap s) a \<and> objects s a \<noteq> None))"

lemma step1_mark_correct:
  assumes "mark_ok s"
  shows "\<exists>bm1 st1 bm.
     process_roots scan_do_oop_work False (roots s) (bitmap s, []) = Some (roots s, bm1, st1) \<and>
     length st1 = card (targets (roots s)) \<and>
     mark_loop (objects s, bm1, st1, 0) =
       Some (objects s, bm, [], card (reachable (objects s) (roots s))) \<and>
     step1_mark s = Some (s\<lparr>bitmap := bm\<rparr>, card (targets (roots s)),
                          card (reachable (objects s) (roots s))) \<and>
     bits bm = reachable (objects s) (roots s) \<and>
     covered_start bm = covered_start (bitmap s) \<and> covered_end bm = covered_end (bitmap s)"
proof -
  let ?R = "reachable (objects s) (roots s)"
  from assms have e: "bits (bitmap s) = {}"
    and valid: "\<forall>a \<in> ?R. covers (bitmap s) a \<and> objects s a \<noteq> None"
    by (auto simp: mark_ok_def)
  have "targets (roots s) \<subseteq> ?R" by (auto simp: targets_def intro: reachable.root)
  with valid have "\<forall>t \<in> targets (roots s). covers (bitmap s) t" by blast
  from slots_do_scan_spec [OF this, of "[]"] e obtain bm1 st1 where
    p: "slots_do scan_do_oop_work (roots s) (bitmap s, []) = Some (roots s, bm1, st1)"
    and cs: "covered_start bm1 = covered_start (bitmap s)"
    and ce: "covered_end bm1 = covered_end (bitmap s)"
    and b1: "bits bm1 = targets (roots s)" and s1: "set st1 = targets (roots s)"
    and d1: "distinct st1" and c1: "card (bits bm1) = length st1"
    by auto
  have valid1: "\<forall>a \<in> ?R. covers bm1 a \<and> objects s a \<noteq> None"
    using valid covers_cong [OF cs ce] by simp
  have inv: "mark_inv (objects s) (roots s) bm1 st1 0"
    unfolding mark_inv_def using b1 s1 d1 c1 \<open>targets (roots s) \<subseteq> ?R\<close> by auto
  from mark_loop_correct [OF valid1 inv] obtain bm where
    m: "mark_loop (objects s, bm1, st1, 0) = Some (objects s, bm, [], card ?R)"
    and bR: "bits bm = ?R"
    and cs': "covered_start bm = covered_start bm1" and ce': "covered_end bm = covered_end bm1"
    by blast
  have len: "length st1 = card (targets (roots s))" using c1 b1 by simp
  have "step1_mark s = Some (s\<lparr>bitmap := bm\<rparr>, card (targets (roots s)), card ?R)"
    using p m len by (simp add: step1_mark_def process_roots_def)
  with p m len bR cs ce cs' ce' show ?thesis
    by (auto simp: process_roots_def)
qed

section \<open>The bitmap walk as a fold over the marked addresses\<close>

fun fold_opt :: "('a \<Rightarrow> 'c \<Rightarrow> 'c option) \<Rightarrow> 'a list \<Rightarrow> 'c \<Rightarrow> 'c option" where
  "fold_opt f [] c = Some c"
| "fold_opt f (x # xs) c = (case f x c of None \<Rightarrow> None | Some c' \<Rightarrow> fold_opt f xs c')"

definition marked_addrs :: "MarkBitMap \<Rightarrow> addr \<Rightarrow> addr \<Rightarrow> addr list" where
  "marked_addrs bm lo hi = filter (is_marked bm) [lo..<hi]"

lemma marked_addrs_empty [simp]: "hi \<le> lo \<Longrightarrow> marked_addrs bm lo hi = []"
  by (simp add: marked_addrs_def)

lemma marked_addrs_step:
  "lo < hi \<Longrightarrow> marked_addrs bm lo hi =
     (if is_marked bm lo then lo # marked_addrs bm (lo + 1) hi else marked_addrs bm (lo + 1) hi)"
  by (simp add: marked_addrs_def upt_conv_Cons)

lemma get_next_marked_addr_le:
  "a \<le> limit \<Longrightarrow> get_next_marked_addr bm a limit \<le> limit"
proof (induction bm a limit rule: get_next_marked_addr.induct)
  case (1 bm a limit)
  show ?case
  proof (cases "a < limit \<and> \<not> is_marked bm a")
    case True
    with "1.IH" have "get_next_marked_addr bm (a + 1) limit \<le> limit" by simp
    with True show ?thesis by (subst get_next_marked_addr.simps) simp
  next
    case False
    with "1.prems" show ?thesis by (subst get_next_marked_addr.simps) auto
  qed
qed

lemma marked_addrs_next:
  "a \<le> limit \<Longrightarrow>
   marked_addrs bm a limit =
     (if get_next_marked_addr bm a limit < limit
      then get_next_marked_addr bm a limit #
           marked_addrs bm (get_next_marked_addr bm a limit + 1) limit
      else [])"
proof (induction bm a limit rule: get_next_marked_addr.induct)
  case (1 bm a limit)
  show ?case
  proof (cases "a < limit")
    case False
    then show ?thesis by (subst (1 2) get_next_marked_addr.simps) simp
  next
    case lt: True
    show ?thesis
    proof (cases "is_marked bm a")
      case True
      with lt have "get_next_marked_addr bm a limit = a"
        by (subst get_next_marked_addr.simps) simp
      with lt True show ?thesis by (simp add: marked_addrs_step)
    next
      case False
      with lt have e: "get_next_marked_addr bm a limit = get_next_marked_addr bm (a + 1) limit"
        by (subst get_next_marked_addr.simps) simp
      from "1.IH" [OF lt False] lt
      have "marked_addrs bm (a + 1) limit =
        (if get_next_marked_addr bm (a + 1) limit < limit
         then get_next_marked_addr bm (a + 1) limit #
              marked_addrs bm (get_next_marked_addr bm (a + 1) limit + 1) limit
         else [])" by simp
      with lt False e show ?thesis by (simp add: marked_addrs_step)
    qed
  qed
qed

lemma walk_bitmap_loop_fold:
  "a \<le> limit \<Longrightarrow>
   walk_bitmap_loop bm limit cl (get_next_marked_addr bm a limit) c =
     fold_opt cl (marked_addrs bm a limit) c"
proof (induction "limit - a" arbitrary: a c rule: less_induct)
  case less
  let ?n = "get_next_marked_addr bm a limit"
  from get_next_marked_addr_ge [OF less.prems] have ge: "a \<le> ?n" .
  show ?case
  proof (cases "?n < limit")
    case False
    with marked_addrs_next [OF less.prems, of bm] show ?thesis
      by (subst walk_bitmap_loop.simps) simp
  next
    case True
    with marked_addrs_next [OF less.prems, of bm]
    have m: "marked_addrs bm a limit = ?n # marked_addrs bm (?n + 1) limit" by simp
    show ?thesis
    proof (cases "cl ?n c")
      case None
      with True m show ?thesis by (subst walk_bitmap_loop.simps) simp
    next
      case (Some c')
      show ?thesis
      proof (cases "?n + 1 < limit")
        case lt: True
        from ge True have "limit - (?n + 1) < limit - a" by simp
        from less.hyps [OF this, of c'] lt
        have "walk_bitmap_loop bm limit cl (get_next_marked_addr bm (?n + 1) limit) c' =
              fold_opt cl (marked_addrs bm (?n + 1) limit) c'" by simp
        with True Some lt m show ?thesis by (subst walk_bitmap_loop.simps) (simp add: Let_def)
      next
        case False
        then have "marked_addrs bm (?n + 1) limit = []" by simp
        with True Some False m show ?thesis by (subst walk_bitmap_loop.simps) (simp add: Let_def)
      qed
    qed
  qed
qed

lemma walk_bitmap_fold:
  "bottom \<le> top_addr \<Longrightarrow>
   walk_bitmap bm bottom top_addr cl c = fold_opt cl (marked_addrs bm bottom top_addr) c"
  by (simp add: walk_bitmap_def Let_def walk_bitmap_loop_fold)

lemma walk_bitmap_fold':
  "walk_bitmap bm bottom top_addr cl c = fold_opt cl (marked_addrs bm bottom top_addr) c"
proof (cases "bottom \<le> top_addr")
  case True
  then show ?thesis by (rule walk_bitmap_fold)
next
  case False
  then have "get_next_marked_addr bm bottom top_addr = top_addr"
    by (subst get_next_marked_addr.simps) simp
  with False show ?thesis
    by (simp add: walk_bitmap_def Let_def) (subst walk_bitmap_loop.simps, simp)
qed

section \<open>The forwarding plan\<close>

text \<open>
  \<open>fwd_of sz cp xs\<close> is the address the compute-forwarding walk assigns when it visits
  the addresses \<open>xs\<close> in order, starting from the compact point \<open>cp\<close>, with object sizes
  \<open>sz\<close>; addresses outside \<open>xs\<close> keep their place. \<open>sliding\<close> holds for a walk whose
  objects have positive sizes, do not overlap, and start at or above the compact point.
\<close>

definition size_at :: "(addr \<rightharpoonup> oopDesc) \<Rightarrow> addr \<Rightarrow> nat" where
  "size_at objs a = (case objs a of None \<Rightarrow> 0 | Some od \<Rightarrow> obj_size od)"

definition mark_at :: "(addr \<rightharpoonup> oopDesc) \<Rightarrow> addr \<Rightarrow> markWord" where
  "mark_at objs a = (case objs a of None \<Rightarrow> prototype | Some od \<Rightarrow> mark_word od)"

fun fwd_of :: "(addr \<Rightarrow> nat) \<Rightarrow> addr \<Rightarrow> addr list \<Rightarrow> addr \<Rightarrow> addr" where
  "fwd_of sz cp [] a = a"
| "fwd_of sz cp (x # xs) a = (if a = x then cp else fwd_of sz (cp + sz x) xs a)"

fun sliding :: "(addr \<Rightarrow> nat) \<Rightarrow> addr \<Rightarrow> addr list \<Rightarrow> bool" where
  "sliding sz cp [] = True"
| "sliding sz cp (x # xs) =
     (cp \<le> x \<and> 0 < sz x \<and> (\<forall>y \<in> set xs. x + sz x \<le> y) \<and> sliding sz (cp + sz x) xs)"

lemma fwd_of_notin [simp]: "a \<notin> set xs \<Longrightarrow> fwd_of sz cp xs a = a"
  by (induction xs arbitrary: cp) auto

lemma fwd_of_decomp:
  "distinct (ys @ a # zs) \<Longrightarrow> fwd_of sz cp (ys @ a # zs) a = cp + sum_list (map sz ys)"
  by (induction ys arbitrary: cp) auto

lemma fwd_of_cong:
  "(\<And>x. x \<in> set xs \<Longrightarrow> sz x = sz' x) \<Longrightarrow> fwd_of sz cp xs a = fwd_of sz' cp xs a"
  by (induction xs arbitrary: cp) auto

lemma sliding_cong:
  "(\<And>x. x \<in> set xs \<Longrightarrow> sz x = sz' x) \<Longrightarrow> sliding sz cp xs = sliding sz' cp xs"
  by (induction xs arbitrary: cp) auto

lemma sliding_distinct: "sliding sz cp xs \<Longrightarrow> distinct xs"
  by (induction xs arbitrary: cp) fastforce+

lemma sliding_sorted: "sliding sz cp xs \<Longrightarrow> sorted_wrt (<) xs"
  by (induction xs arbitrary: cp) fastforce+

lemma sliding_bounds:
  "sliding sz cp xs \<Longrightarrow> a \<in> set xs \<Longrightarrow>
   cp \<le> fwd_of sz cp xs a \<and> fwd_of sz cp xs a \<le> a \<and>
   fwd_of sz cp xs a + sz a \<le> cp + sum_list (map sz xs)"
proof (induction xs arbitrary: cp)
  case Nil
  then show ?case by simp
next
  case (Cons x xs)
  show ?case
  proof (cases "a = x")
    case True
    with Cons.prems show ?thesis by simp
  next
    case False
    with Cons.prems have "a \<in> set xs" "sliding sz (cp + sz x) xs" by auto
    from Cons.IH [OF this(2) this(1)] False show ?thesis by simp
  qed
qed

lemma sliding_mono:
  "sliding sz cp xs \<Longrightarrow> a \<in> set xs \<Longrightarrow> b \<in> set xs \<Longrightarrow> a < b \<Longrightarrow>
   fwd_of sz cp xs a + sz a \<le> fwd_of sz cp xs b"
proof (induction xs arbitrary: cp)
  case Nil
  then show ?case by simp
next
  case (Cons x xs)
  from Cons.prems(1) have sl: "sliding sz (cp + sz x) xs" by simp
  show ?case
  proof (cases "a = x")
    case True
    with Cons.prems have "b \<in> set xs" by auto
    from sliding_bounds [OF sl this] True Cons.prems(4) show ?thesis by simp
  next
    case False
    with Cons.prems have a: "a \<in> set xs" by simp
    with Cons.prems(1) have "x < a" by fastforce
    with Cons.prems(4) have "b \<noteq> x" by simp
    with Cons.prems have b: "b \<in> set xs" by simp
    from Cons.IH [OF sl a b Cons.prems(4)] False \<open>b \<noteq> x\<close> show ?thesis by simp
  qed
qed

lemma sliding_total:
  "sliding sz cp xs \<Longrightarrow> cp \<le> t \<Longrightarrow> \<forall>a \<in> set xs. a + sz a \<le> t \<Longrightarrow>
   cp + sum_list (map sz xs) \<le> t"
proof (induction xs arbitrary: cp)
  case Nil
  then show ?case by simp
next
  case (Cons x xs)
  then have 1: "cp + sz x \<le> t" by fastforce
  from Cons.prems have 2: "sliding sz (cp + sz x) xs" "\<forall>a \<in> set xs. a + sz a \<le> t" by auto
  from Cons.IH [OF 2(1) 1 2(2)] show ?case by (simp add: add.assoc)
qed

lemma sliding_intro:
  "sorted_wrt (<) xs \<Longrightarrow> \<forall>a \<in> set xs. cp \<le> a \<and> 0 < sz a \<Longrightarrow>
   \<forall>a \<in> set xs. \<forall>b \<in> set xs. a < b \<longrightarrow> a + sz a \<le> b \<Longrightarrow> sliding sz cp xs"
proof (induction xs arbitrary: cp)
  case Nil
  then show ?case by simp
next
  case (Cons x xs)
  from Cons.prems have 1: "cp \<le> x" "0 < sz x" "\<forall>y \<in> set xs. x + sz x \<le> y" by auto
  have "\<forall>a \<in> set xs. cp + sz x \<le> a \<and> 0 < sz a"
    using Cons.prems 1 by fastforce
  with Cons.IH [of "cp + sz x"] Cons.prems have "sliding sz (cp + sz x) xs" by simp
  with 1 show ?case by simp
qed

lemma marked_addrs_sorted: "sorted_wrt (<) (marked_addrs bm lo hi)"
  unfolding marked_addrs_def by (rule sorted_wrt_filter) (simp add: sorted_wrt_upt)

lemma set_marked_addrs: "set (marked_addrs bm lo hi) = {a. a \<in> bits bm \<and> lo \<le> a \<and> a < hi}"
  by (auto simp: marked_addrs_def is_marked_def)

lemma marked_addrs_split:
  "lo \<le> a \<Longrightarrow> a < hi \<Longrightarrow> is_marked bm a \<Longrightarrow>
   marked_addrs bm lo hi = marked_addrs bm lo a @ a # marked_addrs bm (a + 1) hi"
proof -
  assume a: "lo \<le> a" "a < hi" "is_marked bm a"
  then have "[lo..<hi] = [lo..<a] @ a # [a + 1..<hi]"
    by (metis Suc_eq_plus1 less_imp_le_nat upt_add_eq_append upt_conv_Cons le_Suc_ex)
  with a(3) show ?thesis by (simp add: marked_addrs_def)
qed

definition forward_all :: "(addr \<Rightarrow> addr) \<Rightarrow> addr set \<Rightarrow> (addr \<rightharpoonup> oopDesc) \<Rightarrow> (addr \<rightharpoonup> oopDesc)" where
  "forward_all F A objs =
     (\<lambda>a. if a \<in> A \<and> F a \<noteq> a
          then map_option (\<lambda>od. od\<lparr>mark_word := Forwarding (F a)\<rparr>) (objs a)
          else objs a)"

definition preserved_of :: "(addr \<Rightarrow> addr) \<Rightarrow> (addr \<rightharpoonup> oopDesc) \<Rightarrow> addr list \<Rightarrow> PreservedMarks" where
  "preserved_of F objs xs =
     map (\<lambda>a. (a, mark_at objs a))
       (filter (\<lambda>a. F a \<noteq> a \<and> must_be_preserved (mark_at objs a)) xs)"

lemma calc_do_object_eq:
  "objs x = Some od \<Longrightarrow>
   calc_do_object x (objs, cp, pm) =
     Some (if x \<noteq> cp then objs(x \<mapsto> od\<lparr>mark_word := Forwarding cp\<rparr>) else objs,
           cp + obj_size od,
           if x \<noteq> cp then push_if_necessary pm x (mark_word od) else pm)"
  by (auto simp: calc_do_object_def forward_to_def)

lemma calc_fold:
  assumes "distinct xs" and "\<forall>a \<in> set xs. objs a \<noteq> None"
    and "\<forall>a \<in> set xs. F a = fwd_of (size_at objs) cp xs a"
  shows "fold_opt calc_do_object xs (objs, cp, pm) =
     Some (forward_all F (set xs) objs, cp + sum_list (map (size_at objs) xs),
           rev (preserved_of F objs xs) @ pm)"
  using assms
proof (induction xs arbitrary: objs cp pm)
  case Nil
  show ?case by (simp add: forward_all_def preserved_of_def)
next
  case (Cons x xs)
  from Cons.prems obtain od where od: "objs x = Some od" by auto
  let ?objs1 = "if x \<noteq> cp then objs(x \<mapsto> od\<lparr>mark_word := Forwarding cp\<rparr>) else objs"
  let ?cp1 = "cp + obj_size od"
  let ?pm1 = "if x \<noteq> cp then push_if_necessary pm x (mark_word od) else pm"
  from Cons.prems have nx: "x \<notin> set xs" and d: "distinct xs" by auto
  have sz: "size_at ?objs1 = size_at objs"
    using od by (auto simp: size_at_def fun_eq_iff)
  have szx: "size_at objs x = obj_size od" using od by (simp add: size_at_def)
  have mk: "\<And>a. a \<noteq> x \<Longrightarrow> mark_at ?objs1 a = mark_at objs a"
    by (simp add: mark_at_def)
  have Fx: "F x = cp" using Cons.prems(3) by simp
  have Fxs: "\<forall>a \<in> set xs. F a = fwd_of (size_at ?objs1) ?cp1 xs a"
    using Cons.prems(3) nx sz szx by auto
  have ne: "\<forall>a \<in> set xs. ?objs1 a \<noteq> None" using Cons.prems(2) by auto
  from Cons.IH [OF d ne Fxs, of ?pm1]
  have ih: "fold_opt calc_do_object xs (?objs1, ?cp1, ?pm1) =
     Some (forward_all F (set xs) ?objs1, ?cp1 + sum_list (map (size_at ?objs1) xs),
           rev (preserved_of F ?objs1 xs) @ ?pm1)" .
  have a: "forward_all F (set xs) ?objs1 = forward_all F (set (x # xs)) objs"
    using od nx Fx by (auto simp: forward_all_def fun_eq_iff)
  have mk': "\<And>a. a \<in> set xs \<Longrightarrow> mark_at ?objs1 a = mark_at objs a"
  proof -
    fix a assume "a \<in> set xs"
    with nx have "a \<noteq> x" by auto
    then show "mark_at ?objs1 a = mark_at objs a" by (rule mk)
  qed
  have b: "preserved_of F ?objs1 xs = preserved_of F objs xs"
    unfolding preserved_of_def
  proof (rule map_cong)
    show "filter (\<lambda>a. F a \<noteq> a \<and> must_be_preserved (mark_at ?objs1 a)) xs =
          filter (\<lambda>a. F a \<noteq> a \<and> must_be_preserved (mark_at objs a)) xs"
      by (rule filter_cong [OF refl]) (simp only: mk')
  next
    fix a assume "a \<in> set (filter (\<lambda>a. F a \<noteq> a \<and> must_be_preserved (mark_at objs a)) xs)"
    then have "a \<in> set xs" by simp
    then show "(a, mark_at ?objs1 a) = (a, mark_at objs a)" by (simp only: mk')
  qed
  have c: "rev (preserved_of F objs (x # xs)) @ pm = rev (preserved_of F objs xs) @ ?pm1"
    using od Fx by (auto simp: preserved_of_def push_if_necessary_def mark_at_def)
  from ih a b c sz szx calc_do_object_eq [where objs = objs and x = x and cp = cp and pm = pm, OF od]
  show ?case by (simp add: add.assoc)
qed

definition forwardee_addr :: "EpsilonHeap \<Rightarrow> addr \<Rightarrow> addr" where
  "forwardee_addr s a =
     space_bottom s +
     sum_list (map (size_at (objects s)) (marked_addrs (bitmap s) (space_bottom s) a))"

definition calc_ok :: "EpsilonHeap \<Rightarrow> bool" where
  "calc_ok s =
     (space_bottom s \<le> space_top s \<and>
      (\<forall>a \<in> bits (bitmap s). space_bottom s \<le> a \<and> a < space_top s \<and>
         (\<exists>od. objects s a = Some od \<and> 0 < obj_size od \<and> a + obj_size od \<le> space_top s)) \<and>
      (\<forall>a \<in> bits (bitmap s). \<forall>b \<in> bits (bitmap s).
         a < b \<longrightarrow> a + size_at (objects s) a \<le> b))"

lemma fwd_of_marked_addrs:
  assumes "a \<in> set (marked_addrs bm lo hi)"
  shows "fwd_of sz lo (marked_addrs bm lo hi) a = lo + sum_list (map sz (marked_addrs bm lo a))"
proof -
  from assms have a: "lo \<le> a" "a < hi" "is_marked bm a"
    by (auto simp: set_marked_addrs is_marked_def)
  have d: "distinct (marked_addrs bm lo hi)"
    by (simp add: marked_addrs_def)
  from marked_addrs_split [OF a]
  have e: "marked_addrs bm lo hi = marked_addrs bm lo a @ a # marked_addrs bm (a + 1) hi" .
  from d have "distinct (marked_addrs bm lo a @ a # marked_addrs bm (a + 1) hi)"
    by (simp only: e [symmetric])
  from fwd_of_decomp [OF this, of sz lo] e show ?thesis by simp
qed

lemma calc_ok_sliding:
  assumes "calc_ok s"
  shows "sliding (size_at (objects s)) (space_bottom s)
           (marked_addrs (bitmap s) (space_bottom s) (space_top s))"
    and "set (marked_addrs (bitmap s) (space_bottom s) (space_top s)) = bits (bitmap s)"
proof -
  let ?L = "marked_addrs (bitmap s) (space_bottom s) (space_top s)"
  from assms show st: "set ?L = bits (bitmap s)"
    by (auto simp: set_marked_addrs calc_ok_def)
  have 1: "\<forall>a \<in> set ?L. space_bottom s \<le> a \<and> 0 < size_at (objects s) a"
    using assms st by (fastforce simp: calc_ok_def size_at_def)
  have 2: "\<forall>a \<in> set ?L. \<forall>b \<in> set ?L. a < b \<longrightarrow> a + size_at (objects s) a \<le> b"
    using assms st by (simp add: calc_ok_def)
  from sliding_intro [OF marked_addrs_sorted 1 2]
  show "sliding (size_at (objects s)) (space_bottom s) ?L" .
qed


section \<open>The adjust, move and restore steps in closed form\<close>

text \<open>
  \<open>adj objs\<close> is what the adjusting closure makes of a slot; \<open>adjust_all\<close> applies a
  slot function to the fields of the objects in a set; \<open>moved_to\<close> is the memory after
  one object has been copied to its forwardee and its mark word reinitialised.
\<close>

definition adj :: "(addr \<rightharpoonup> oopDesc) \<Rightarrow> slot \<Rightarrow> slot" where
  "adj objs p =
     (case p of
        None \<Rightarrow> None
      | Some t \<Rightarrow> (case forwardee_of objs t of Some (Some f) \<Rightarrow> Some f | _ \<Rightarrow> Some t))"

definition adjust_all :: "(slot \<Rightarrow> slot) \<Rightarrow> addr set \<Rightarrow> (addr \<rightharpoonup> oopDesc) \<Rightarrow> (addr \<rightharpoonup> oopDesc)" where
  "adjust_all g A objs =
     (\<lambda>a. if a \<in> A then map_option (\<lambda>od. od\<lparr>oop_fields := map g (oop_fields od)\<rparr>) (objs a)
          else objs a)"

lemma forwardee_of_None_iff: "forwardee_of objs t = None \<longleftrightarrow> objs t = None"
  by (simp add: forwardee_of_def split: option.splits markWord.splits)

lemma slots_do_adjust:
  "\<forall>t \<in> targets ps. objs t \<noteq> None \<Longrightarrow>
   slots_do (adjust_do_oop_work objs) ps () = Some (map (adj objs) ps, ())"
proof (induction ps)
  case Nil
  show ?case by simp
next
  case (Cons p ps)
  show ?case
  proof (cases p)
    case None
    with Cons show ?thesis by (simp add: adjust_do_oop_work_def adj_def)
  next
    case (Some t)
    with Cons.prems have "objs t \<noteq> None" by simp
    then obtain r where r: "forwardee_of objs t = Some r"
      by (auto simp: forwardee_of_None_iff [symmetric])
    from Cons.prems Some have "\<forall>t \<in> targets ps. objs t \<noteq> None" by simp
    from Cons.IH [OF this] Some r show ?thesis
      by (cases r) (simp_all add: adjust_do_oop_work_def adj_def)
  qed
qed

lemma adjust_do_object_eq:
  assumes "objs x = Some od" and "\<forall>t \<in> targets (oop_fields od). objs t \<noteq> None"
  shows "adjust_do_object x (objs, ()) =
         Some (objs(x \<mapsto> od\<lparr>oop_fields := map (adj objs) (oop_fields od)\<rparr>), ())"
  using assms(1) slots_do_adjust [OF assms(2)]
  by (simp add: adjust_do_object_def oop_iterate_def)

lemma forwardee_of_fields_upd:
  "objs x = Some od \<Longrightarrow> forwardee_of (objs(x \<mapsto> od\<lparr>oop_fields := fs\<rparr>)) = forwardee_of objs"
  by (auto simp: forwardee_of_def fun_eq_iff)

lemma adj_fields_upd:
  "objs x = Some od \<Longrightarrow> adj (objs(x \<mapsto> od\<lparr>oop_fields := fs\<rparr>)) = adj objs"
proof -
  assume "objs x = Some od"
  then have "forwardee_of (objs(x \<mapsto> od\<lparr>oop_fields := fs\<rparr>)) = forwardee_of objs"
    by (rule forwardee_of_fields_upd)
  then show ?thesis unfolding adj_def fun_eq_iff by (simp only:) simp
qed

lemma adjust_fold:
  assumes "distinct xs"
    and "\<forall>a \<in> set xs. \<exists>od. objs a = Some od \<and> (\<forall>t \<in> targets (oop_fields od). objs t \<noteq> None)"
    and "adj objs = g"
  shows "fold_opt adjust_do_object xs (objs, ()) = Some (adjust_all g (set xs) objs, ())"
  using assms
proof (induction xs arbitrary: objs)
  case Nil
  show ?case by (simp add: adjust_all_def)
next
  case (Cons x xs)
  from Cons.prems obtain od where od: "objs x = Some od"
    and tg: "\<forall>t \<in> targets (oop_fields od). objs t \<noteq> None" by auto
  let ?objs1 = "objs(x \<mapsto> od\<lparr>oop_fields := map (adj objs) (oop_fields od)\<rparr>)"
  from Cons.prems have nx: "x \<notin> set xs" and d: "distinct xs" by auto
  have v: "\<forall>a \<in> set xs. \<exists>od. ?objs1 a = Some od \<and> (\<forall>t \<in> targets (oop_fields od). ?objs1 t \<noteq> None)"
  proof
    fix a assume a: "a \<in> set xs"
    with nx have "a \<noteq> x" by auto
    from Cons.prems(2) a obtain oa where "objs a = Some oa"
      "\<forall>t \<in> targets (oop_fields oa). objs t \<noteq> None" by auto
    with \<open>a \<noteq> x\<close> show "\<exists>od. ?objs1 a = Some od \<and> (\<forall>t \<in> targets (oop_fields od). ?objs1 t \<noteq> None)"
      by auto
  qed
  have g: "adj ?objs1 = g" using adj_fields_upd [where objs = objs and x = x, OF od] Cons.prems(3) by simp
  from Cons.IH [OF d v g]
  have ih: "fold_opt adjust_do_object xs (?objs1, ()) = Some (adjust_all g (set xs) ?objs1, ())" .
  have e: "adjust_all g (set xs) ?objs1 = adjust_all g (set (x # xs)) objs"
    using od nx Cons.prems(3) by (auto simp: adjust_all_def fun_eq_iff)
  from adjust_do_object_eq [where objs = objs and x = x, OF od tg] ih e
  show ?case by simp
qed

lemma adjust_during_full_gc_eq:
  "\<forall>(a, m) \<in> set pm. objs a \<noteq> None \<Longrightarrow>
   adjust_during_full_gc objs pm =
     Some (map (\<lambda>(a, m). (case forwardee_of objs a of Some (Some f) \<Rightarrow> f | _ \<Rightarrow> a, m)) pm)"
proof (induction pm)
  case Nil
  show ?case by simp
next
  case (Cons e pm)
  obtain a m where e: "e = (a, m)" by (cases e)
  with Cons.prems have "objs a \<noteq> None" by simp
  then obtain r where r: "forwardee_of objs a = Some r"
    by (auto simp: forwardee_of_None_iff [symmetric])
  from Cons.prems have "\<forall>(a, m) \<in> set pm. objs a \<noteq> None" by simp
  from Cons.IH [OF this] e r show ?case by (cases r) simp_all
qed

lemma restore_eq:
  "distinct (map fst pm) \<Longrightarrow> \<forall>(d, m) \<in> set pm. objs d \<noteq> None \<Longrightarrow>
   restore pm objs =
     Some (\<lambda>d. case map_of pm d of
                 None \<Rightarrow> objs d
               | Some m \<Rightarrow> map_option (\<lambda>od. od\<lparr>mark_word := m\<rparr>) (objs d))"
proof (induction pm arbitrary: objs)
  case Nil
  show ?case by simp
next
  case (Cons e pm)
  obtain x m where e: "e = (x, m)" by (cases e)
  with Cons.prems obtain od where od: "objs x = Some od" by auto
  let ?objs1 = "objs(x \<mapsto> od\<lparr>mark_word := m\<rparr>)"
  from Cons.prems e have d: "distinct (map fst pm)" and nx: "x \<notin> fst ` set pm" by auto
  have v: "\<forall>(d, m) \<in> set pm. ?objs1 d \<noteq> None" using Cons.prems(2) by auto
  from nx have mo: "map_of pm x = None" by (simp add: map_of_eq_None_iff)
  from Cons.IH [OF d v]
  have ih: "restore pm ?objs1 =
     Some (\<lambda>d. case map_of pm d of
                 None \<Rightarrow> ?objs1 d
               | Some m \<Rightarrow> map_option (\<lambda>od. od\<lparr>mark_word := m\<rparr>) (?objs1 d))" .
  have "(\<lambda>d. case map_of pm d of
                 None \<Rightarrow> ?objs1 d
               | Some m \<Rightarrow> map_option (\<lambda>od. od\<lparr>mark_word := m\<rparr>) (?objs1 d)) =
        (\<lambda>d. case map_of (e # pm) d of
                 None \<Rightarrow> objs d
               | Some m \<Rightarrow> map_option (\<lambda>od. od\<lparr>mark_word := m\<rparr>) (objs d))"
    using e od mo by (auto simp: fun_eq_iff split: option.splits)
  with ih e od show ?case by (simp add: set_mark_def)
qed

lemma move_not_forwarded:
  "\<forall>a \<in> set xs. \<exists>od. objs a = Some od \<and> \<not> mark_is_marked (mark_word od) \<Longrightarrow>
   fold_opt move_do_object xs (objs, moved) = Some (objs, moved)"
proof (induction xs)
  case Nil
  show ?case by simp
next
  case (Cons x xs)
  from Cons.prems obtain od where "objs x = Some od" "\<not> mark_is_marked (mark_word od)" by auto
  then have "move_do_object x (objs, moved) = Some (objs, moved)"
    by (cases "mark_word od") (simp_all add: move_do_object_def forwardee_of_def mark_is_marked_def)
  with Cons show ?case by simp
qed

lemma move_do_object_stay:
  "objs x = Some od \<Longrightarrow> \<not> mark_is_marked (mark_word od) \<Longrightarrow>
   move_do_object x (objs, moved) = Some (objs, moved)"
  by (cases "mark_word od") (simp_all add: move_do_object_def forwardee_of_def mark_is_marked_def)

definition moved_to :: "(addr \<rightharpoonup> oopDesc) \<Rightarrow> addr \<Rightarrow> oopDesc \<Rightarrow> addr \<Rightarrow> (addr \<rightharpoonup> oopDesc)" where
  "moved_to objs x od f =
     (\<lambda>a. if a = f then Some (od\<lparr>mark_word := prototype\<rparr>)
          else (case objs a of
                  None \<Rightarrow> None
                | Some oa \<Rightarrow> if a < f + obj_size od \<and> f < a + obj_size oa then None else Some oa))"

lemma move_do_object_go:
  "objs x = Some od \<Longrightarrow> mark_word od = Forwarding f \<Longrightarrow>
   move_do_object x (objs, moved) = Some (moved_to objs x od f, moved + 1)"
  by (auto simp: move_do_object_def forwardee_of_def init_mark_def aligned_conjoint_words_def
      moved_to_def fun_eq_iff)

lemma move_fold:
  assumes "sliding sz cp xs"
    and "\<forall>a \<in> set xs. \<exists>od. objs a = Some od \<and> obj_size od = sz a \<and>
           (if fwd_of sz cp xs a = a then \<not> mark_is_marked (mark_word od)
            else mark_word od = Forwarding (fwd_of sz cp xs a))"
    and "\<forall>a \<in> set xs. \<forall>d. a < d \<and> d < a + sz a \<longrightarrow> objs d = None"
    and "\<forall>d od. d < cp \<longrightarrow> objs d = Some od \<longrightarrow> d + obj_size od \<le> cp"
  shows "\<exists>objs'. fold_opt move_do_object xs (objs, moved) =
           Some (objs', moved + length (filter (\<lambda>a. fwd_of sz cp xs a \<noteq> a) xs)) \<and>
         (\<forall>d < cp. objs' d = objs d) \<and>
         (\<forall>a \<in> set xs. objs' (fwd_of sz cp xs a) =
            map_option (\<lambda>od. if fwd_of sz cp xs a = a then od else od\<lparr>mark_word := prototype\<rparr>)
              (objs a)) \<and>
         (\<forall>d. cp \<le> d \<and> d < cp + sum_list (map sz xs) \<and> objs' d \<noteq> None \<longrightarrow>
            d \<in> fwd_of sz cp xs ` set xs)"
  using assms
proof (induction xs arbitrary: cp objs moved)
  case Nil
  show ?case by simp
next
  case (Cons x xs)
  let ?F = "fwd_of sz cp (x # xs)"
  let ?cp1 = "cp + sz x"
  let ?F1 = "fwd_of sz ?cp1 xs"
  from Cons.prems(1) have cpx: "cp \<le> x" and pos: "0 < sz x"
    and later: "\<forall>y \<in> set xs. x + sz x \<le> y" and sl1: "sliding sz ?cp1 xs" by auto
  from later pos have nx: "x \<notin> set xs" by fastforce
  have FF1: "\<And>a. a \<in> set xs \<Longrightarrow> ?F a = ?F1 a" using nx by auto
  have Fx: "?F x = cp" by simp
  from Cons.prems(2) obtain od where od: "objs x = Some od" and szx: "obj_size od = sz x"
    and mk: "if cp = x then \<not> mark_is_marked (mark_word od) else mark_word od = Forwarding cp"
    by auto
  have hole: "\<forall>d. x < d \<and> d < x + sz x \<longrightarrow> objs d = None" using Cons.prems(3) by simp
  show ?case
  proof (cases "cp = x")
    case True
    with mk have st: "move_do_object x (objs, moved) = Some (objs, moved)"
      using move_do_object_stay [where objs = objs and x = x, OF od] by simp
    have A2: "\<forall>a \<in> set xs. \<exists>od. objs a = Some od \<and> obj_size od = sz a \<and>
           (if ?F1 a = a then \<not> mark_is_marked (mark_word od)
            else mark_word od = Forwarding (?F1 a))"
    proof
      fix a assume a: "a \<in> set xs"
      with Cons.prems(2) have "\<exists>od. objs a = Some od \<and> obj_size od = sz a \<and>
           (if ?F a = a then \<not> mark_is_marked (mark_word od)
            else mark_word od = Forwarding (?F a))" by simp
      then show "\<exists>od. objs a = Some od \<and> obj_size od = sz a \<and>
           (if ?F1 a = a then \<not> mark_is_marked (mark_word od)
            else mark_word od = Forwarding (?F1 a))"
        by (simp only: FF1 [OF a])
    qed
    have A3: "\<forall>a \<in> set xs. \<forall>d. a < d \<and> d < a + sz a \<longrightarrow> objs d = None"
      using Cons.prems(3) by simp
    have A5: "\<forall>d od'. d < ?cp1 \<longrightarrow> objs d = Some od' \<longrightarrow> d + obj_size od' \<le> ?cp1"
    proof (intro allI impI)
      fix d od' assume d: "d < ?cp1" and o: "objs d = Some od'"
      show "d + obj_size od' \<le> ?cp1"
      proof (cases "d < cp")
        case True
        with Cons.prems(4) o have "d + obj_size od' \<le> cp" by blast
        then show ?thesis by simp
      next
        case False
        with hole o d \<open>cp = x\<close> have "d = x" by (metis linorder_neqE_nat not_less_eq option.distinct(1) less_Suc_eq)
        with o od szx \<open>cp = x\<close> show ?thesis by simp
      qed
    qed
    from Cons.IH [OF sl1 A2 A3 A5, of moved] obtain objs' where
      f: "fold_opt move_do_object xs (objs, moved) =
           Some (objs', moved + length (filter (\<lambda>a. ?F1 a \<noteq> a) xs))"
      and c1: "\<forall>d < ?cp1. objs' d = objs d"
      and c2: "\<forall>a \<in> set xs. objs' (?F1 a) =
            map_option (\<lambda>od. if ?F1 a = a then od else od\<lparr>mark_word := prototype\<rparr>) (objs a)"
      and c3: "\<forall>d. ?cp1 \<le> d \<and> d < ?cp1 + sum_list (map sz xs) \<and> objs' d \<noteq> None \<longrightarrow>
            d \<in> ?F1 ` set xs"
      by blast
    have len: "length (filter (\<lambda>a. ?F a \<noteq> a) (x # xs)) = length (filter (\<lambda>a. ?F1 a \<noteq> a) xs)"
    proof -
      have "filter (\<lambda>a. ?F a \<noteq> a) xs = filter (\<lambda>a. ?F1 a \<noteq> a) xs"
        by (rule filter_cong [OF refl]) (simp only: FF1)
      with True show ?thesis by simp
    qed
    have r1: "fold_opt move_do_object (x # xs) (objs, moved) =
           Some (objs', moved + length (filter (\<lambda>a. ?F a \<noteq> a) (x # xs)))"
      using st f len by simp
    have r2: "\<forall>d < cp. objs' d = objs d" using c1 by simp
    have r3: "\<forall>a \<in> set (x # xs). objs' (?F a) =
            map_option (\<lambda>od. if ?F a = a then od else od\<lparr>mark_word := prototype\<rparr>) (objs a)"
    proof
      fix a assume "a \<in> set (x # xs)"
      then consider "a = x" | "a \<in> set xs" by auto
      then show "objs' (?F a) =
            map_option (\<lambda>od. if ?F a = a then od else od\<lparr>mark_word := prototype\<rparr>) (objs a)"
      proof cases
        case 1
        with True pos c1 od show ?thesis by simp
      next
        case 2
        with c2 show ?thesis by (simp only: FF1 [OF 2])
      qed
    qed
    have r4: "\<forall>d. cp \<le> d \<and> d < cp + sum_list (map sz (x # xs)) \<and> objs' d \<noteq> None \<longrightarrow>
            d \<in> ?F ` set (x # xs)"
    proof (intro allI impI)
      fix d assume d: "cp \<le> d \<and> d < cp + sum_list (map sz (x # xs)) \<and> objs' d \<noteq> None"
      show "d \<in> ?F ` set (x # xs)"
      proof (cases "d < ?cp1")
        case lt: True
        with c1 d have "objs d \<noteq> None" by simp
        with hole lt d True have "d = x" by (metis le_neq_implies_less)
        with True show ?thesis by simp
      next
        case False
        with d c3 have "d \<in> ?F1 ` set xs" by (simp add: add.assoc)
        then obtain a where a: "a \<in> set xs" "d = ?F1 a" by blast
        with FF1 [OF a(1)] have "d = ?F a" by simp
        with a show ?thesis by (metis imageI list.set_intros(2))
      qed
    qed
    from r1 r2 r3 r4 show ?thesis by blast
  next
    case False
    with mk have fw: "mark_word od = Forwarding cp" by simp
    from False cpx have lt: "cp < x" by simp
    let ?objs1 = "moved_to objs x od cp"
    have st: "move_do_object x (objs, moved) = Some (?objs1, moved + 1)"
      using move_do_object_go [where objs = objs and x = x, OF od fw] .
    have keep: "\<And>a. a \<in> set xs \<Longrightarrow> ?objs1 a = objs a"
    proof -
      fix a assume "a \<in> set xs"
      with later have "x + sz x \<le> a" by simp
      with lt szx show "?objs1 a = objs a"
        by (auto simp: moved_to_def split: option.splits)
    qed
    have A2: "\<forall>a \<in> set xs. \<exists>od. ?objs1 a = Some od \<and> obj_size od = sz a \<and>
           (if ?F1 a = a then \<not> mark_is_marked (mark_word od)
            else mark_word od = Forwarding (?F1 a))"
    proof
      fix a assume a: "a \<in> set xs"
      with Cons.prems(2) have "\<exists>od. objs a = Some od \<and> obj_size od = sz a \<and>
           (if ?F a = a then \<not> mark_is_marked (mark_word od)
            else mark_word od = Forwarding (?F a))" by simp
      then show "\<exists>od. ?objs1 a = Some od \<and> obj_size od = sz a \<and>
           (if ?F1 a = a then \<not> mark_is_marked (mark_word od)
            else mark_word od = Forwarding (?F1 a))"
        by (simp only: FF1 [OF a] keep [OF a])
    qed
    have A3: "\<forall>a \<in> set xs. \<forall>d. a < d \<and> d < a + sz a \<longrightarrow> ?objs1 d = None"
    proof (intro ballI allI impI)
      fix a d assume a: "a \<in> set xs" and d: "a < d \<and> d < a + sz a"
      with Cons.prems(3) have "objs d = None" by simp
      moreover from a later lt d have "d \<noteq> cp" by fastforce
      ultimately show "?objs1 d = None" by (simp add: moved_to_def)
    qed
    have A5: "\<forall>d od'. d < ?cp1 \<longrightarrow> ?objs1 d = Some od' \<longrightarrow> d + obj_size od' \<le> ?cp1"
    proof (intro allI impI)
      fix d od' assume d: "d < ?cp1" and o: "?objs1 d = Some od'"
      show "d + obj_size od' \<le> ?cp1"
      proof (cases "d = cp")
        case True
        with o szx show ?thesis by (auto simp: moved_to_def)
      next
        case ne: False
        with o have c: "(case objs d of None \<Rightarrow> None
            | Some oa \<Rightarrow> if d < cp + obj_size od \<and> cp < d + obj_size oa then None else Some oa) =
            Some od'" by (simp add: moved_to_def)
        then obtain oa where oa: "objs d = Some oa" by (cases "objs d") simp_all
        with c have no: "\<not> (d < cp + obj_size od \<and> cp < d + obj_size oa)" and e: "od' = oa"
          by (simp_all split: if_splits)
        from no d szx have "d + obj_size oa \<le> cp" by simp
        with e show ?thesis by simp
      qed
    qed
    from Cons.IH [OF sl1 A2 A3 A5, of "moved + 1"] obtain objs' where
      f: "fold_opt move_do_object xs (?objs1, moved + 1) =
           Some (objs', moved + 1 + length (filter (\<lambda>a. ?F1 a \<noteq> a) xs))"
      and c1: "\<forall>d < ?cp1. objs' d = ?objs1 d"
      and c2: "\<forall>a \<in> set xs. objs' (?F1 a) =
            map_option (\<lambda>od. if ?F1 a = a then od else od\<lparr>mark_word := prototype\<rparr>) (?objs1 a)"
      and c3: "\<forall>d. ?cp1 \<le> d \<and> d < ?cp1 + sum_list (map sz xs) \<and> objs' d \<noteq> None \<longrightarrow>
            d \<in> ?F1 ` set xs"
      by blast
    have len: "length (filter (\<lambda>a. ?F a \<noteq> a) (x # xs)) =
               1 + length (filter (\<lambda>a. ?F1 a \<noteq> a) xs)"
    proof -
      have "filter (\<lambda>a. ?F a \<noteq> a) xs = filter (\<lambda>a. ?F1 a \<noteq> a) xs"
        by (rule filter_cong [OF refl]) (simp only: FF1)
      with False show ?thesis by simp
    qed
    have r1: "fold_opt move_do_object (x # xs) (objs, moved) =
           Some (objs', moved + length (filter (\<lambda>a. ?F a \<noteq> a) (x # xs)))"
      using st f len by simp
    have r2: "\<forall>d < cp. objs' d = objs d"
    proof (intro allI impI)
      fix d assume d: "d < cp"
      with c1 have "objs' d = ?objs1 d" by simp
      also have "?objs1 d = objs d"
      proof (cases "objs d")
        case None
        with d show ?thesis by (simp add: moved_to_def)
      next
        case (Some oa)
        with Cons.prems(4) d have "d + obj_size oa \<le> cp" by blast
        with Some d show ?thesis by (simp add: moved_to_def)
      qed
      finally show "objs' d = objs d" .
    qed
    have r3: "\<forall>a \<in> set (x # xs). objs' (?F a) =
            map_option (\<lambda>od. if ?F a = a then od else od\<lparr>mark_word := prototype\<rparr>) (objs a)"
    proof
      fix a assume "a \<in> set (x # xs)"
      then consider "a = x" | "a \<in> set xs" by auto
      then show "objs' (?F a) =
            map_option (\<lambda>od. if ?F a = a then od else od\<lparr>mark_word := prototype\<rparr>) (objs a)"
      proof cases
        case 1
        from pos c1 have "objs' cp = ?objs1 cp" by simp
        with 1 False od show ?thesis by (simp add: moved_to_def)
      next
        case 2
        with c2 show ?thesis by (simp only: FF1 [OF 2] keep [OF 2])
      qed
    qed
    have r4: "\<forall>d. cp \<le> d \<and> d < cp + sum_list (map sz (x # xs)) \<and> objs' d \<noteq> None \<longrightarrow>
            d \<in> ?F ` set (x # xs)"
    proof (intro allI impI)
      fix d assume d: "cp \<le> d \<and> d < cp + sum_list (map sz (x # xs)) \<and> objs' d \<noteq> None"
      show "d \<in> ?F ` set (x # xs)"
      proof (cases "d < ?cp1")
        case dlt: True
        with c1 d have n: "?objs1 d \<noteq> None" by simp
        have "d = cp"
        proof (rule ccontr)
          assume "d \<noteq> cp"
          with d have "cp < d" by simp
          with dlt szx \<open>d \<noteq> cp\<close> have "?objs1 d = None"
            by (auto simp: moved_to_def split: option.splits)
          with n show False by simp
        qed
        then show ?thesis by simp
      next
        case False
        with d c3 have "d \<in> ?F1 ` set xs" by (simp add: add.assoc)
        then obtain a where a: "a \<in> set xs" "d = ?F1 a" by blast
        with FF1 [OF a(1)] have "d = ?F a" by simp
        with a show ?thesis by (metis imageI list.set_intros(2))
      qed
    qed
    from r1 r2 r3 r4 show ?thesis by blast
  qed
qed

section \<open>One collection cycle on the live objects\<close>

text \<open>
  \<open>relocated F od\<close> is the object \<open>od\<close> with its references mapped through \<open>F\<close>.
  \<open>live_ok objs bottom L\<close> describes the live objects \<open>L\<close> as the bitmap walk meets them:
  in address order from \<open>bottom\<close>, of positive size, not overlapping, with ordinary mark
  words, referring to live objects only; no other object starts inside a live object
  or below \<open>bottom\<close>.
\<close>

definition relocated :: "(addr \<Rightarrow> addr) \<Rightarrow> oopDesc \<Rightarrow> oopDesc" where
  "relocated F od = od\<lparr>oop_fields := map (map_option F) (oop_fields od)\<rparr>"

definition live_ok :: "(addr \<rightharpoonup> oopDesc) \<Rightarrow> addr \<Rightarrow> addr list \<Rightarrow> bool" where
  "live_ok objs bottom L =
     (sliding (size_at objs) bottom L \<and>
      (\<forall>a \<in> set L. \<exists>od. objs a = Some od \<and> \<not> mark_is_marked (mark_word od) \<and>
          targets (oop_fields od) \<subseteq> set L \<and>
          (\<forall>d. a < d \<and> d < a + obj_size od \<longrightarrow> objs d = None)) \<and>
      (\<forall>d < bottom. objs d = None))"

lemma sliding_inj:
  assumes "sliding sz cp xs"
  shows "inj_on (fwd_of sz cp xs) (set xs)"
proof (rule inj_onI)
  fix a b assume a: "a \<in> set xs" and b: "b \<in> set xs"
    and e: "fwd_of sz cp xs a = fwd_of sz cp xs b"
  have pos: "\<And>x. x \<in> set xs \<Longrightarrow> 0 < sz x"
    using assms by (induction xs arbitrary: cp) auto
  show "a = b"
  proof (rule ccontr)
    assume "a \<noteq> b"
    then consider "a < b" | "b < a" by linarith
    then show False
    proof cases
      case 1
      from sliding_mono [OF assms a b 1] pos [OF a] e show False by simp
    next
      case 2
      from sliding_mono [OF assms b a 2] pos [OF b] e show False by simp
    qed
  qed
qed

lemma sliding_pos: "sliding sz cp xs \<Longrightarrow> x \<in> set xs \<Longrightarrow> 0 < sz x"
  by (induction xs arbitrary: cp) auto

lemma forwardee_of_forward_all:
  assumes "objs t = Some od" and "\<not> mark_is_marked (mark_word od)" and "t \<in> A"
  shows "forwardee_of (forward_all F A objs) t = Some (if F t \<noteq> t then Some (F t) else None)"
  using assms
  by (cases "mark_word od") (simp_all add: forwardee_of_def forward_all_def mark_is_marked_def)

lemma forwardee_of_adjust_all: "forwardee_of (adjust_all g A objs) = forwardee_of objs"
  by (auto simp: forwardee_of_def adjust_all_def fun_eq_iff split: option.splits)

lemma adj_adjust_all: "adj (adjust_all g A objs) = adj objs"
  unfolding adj_def fun_eq_iff by (simp only: forwardee_of_adjust_all) simp

lemma adj_forward_all:
  assumes "\<forall>a \<in> A. \<exists>od. objs a = Some od \<and> \<not> mark_is_marked (mark_word od)"
    and "targets ps \<subseteq> A"
  shows "map (adj (forward_all F A objs)) ps = map (map_option F) ps"
proof (rule map_cong [OF refl])
  fix p assume p: "p \<in> set ps"
  show "adj (forward_all F A objs) p = map_option F p"
  proof (cases p)
    case None
    then show ?thesis by (simp add: adj_def)
  next
    case (Some t)
    with p assms(2) have t: "t \<in> A" by (auto simp: targets_def)
    with assms(1) obtain od where od: "objs t = Some od" "\<not> mark_is_marked (mark_word od)" by blast
    from forwardee_of_forward_all [where objs = objs and t = t and F = F and A = A, OF od t] Some
    show ?thesis
      by (simp add: adj_def)
  qed
qed

lemma forward_all_None_iff: "forward_all F A objs d = None \<longleftrightarrow> objs d = None"
  by (simp add: forward_all_def)

lemma adjust_all_None_iff: "adjust_all g A objs d = None \<longleftrightarrow> objs d = None"
  by (simp add: adjust_all_def)

lemma cycle_objects:
  assumes ok: "live_ok objs0 bottom L" and rts: "targets rs \<subseteq> set L"
    and F: "F = fwd_of (size_at objs0) bottom L"
    and P: "P = (\<lambda>a. F a \<noteq> a \<and> must_be_preserved (mark_at objs0 a))"
    and nt: "new_top = bottom + sum_list (map (size_at objs0) L)"
  shows "\<exists>objs2 pm2 objs3 pm3 objs4 objs5.
     fold_opt calc_do_object L (objs0, bottom, []) = Some (objs2, new_top, pm2) \<and>
     length pm2 = length (filter P L) \<and>
     fold_opt adjust_do_object L (objs2, ()) = Some (objs3, ()) \<and>
     slots_do (adjust_do_oop_work objs3) rs () = Some (map (map_option F) rs, ()) \<and>
     adjust_during_full_gc objs3 pm2 = Some pm3 \<and>
     fold_opt move_do_object L (objs3, 0) = Some (objs4, length (filter (\<lambda>a. F a \<noteq> a) L)) \<and>
     restore pm3 objs4 = Some objs5 \<and>
     (\<forall>a \<in> set L. objs5 (F a) = map_option (relocated F) (objs0 a)) \<and>
     (\<forall>d. d < new_top \<and> objs5 d \<noteq> None \<longrightarrow> d \<in> F ` set L)"
proof -
  let ?sz = "size_at objs0"
  from ok have sl: "sliding ?sz bottom L"
    and live: "\<forall>a \<in> set L. \<exists>od. objs0 a = Some od \<and> \<not> mark_is_marked (mark_word od) \<and>
          targets (oop_fields od) \<subseteq> set L \<and>
          (\<forall>d. a < d \<and> d < a + obj_size od \<longrightarrow> objs0 d = None)"
    and below: "\<forall>d < bottom. objs0 d = None"
    by (simp_all add: live_ok_def)
  have d: "distinct L" using sl by (rule sliding_distinct)
  have inj: "inj_on F (set L)" unfolding F using sl by (rule sliding_inj)
  have unm: "\<forall>a \<in> set L. \<exists>od. objs0 a = Some od \<and> \<not> mark_is_marked (mark_word od)"
    using live by blast
  have ne: "\<forall>a \<in> set L. objs0 a \<noteq> None" using live by fastforce
  \<comment> \<open>step 2\<close>
  let ?objs2 = "forward_all F (set L) objs0"
  let ?pm2 = "rev (preserved_of F objs0 L)"
  have Feq: "\<forall>a \<in> set L. F a = fwd_of ?sz bottom L a" by (simp add: F)
  from calc_fold [OF d ne Feq, of "[]"] nt
  have s2: "fold_opt calc_do_object L (objs0, bottom, []) = Some (?objs2, new_top, ?pm2)" by simp
  have l2: "length ?pm2 = length (filter P L)" by (simp add: preserved_of_def P)
  \<comment> \<open>step 3\<close>
  have o2: "\<And>a od. a \<in> set L \<Longrightarrow> objs0 a = Some od \<Longrightarrow>
      ?objs2 a = Some (if F a \<noteq> a then od\<lparr>mark_word := Forwarding (F a)\<rparr> else od)"
    by (simp add: forward_all_def)
  have v2: "\<forall>a \<in> set L. \<exists>od. ?objs2 a = Some od \<and>
      (\<forall>t \<in> targets (oop_fields od). ?objs2 t \<noteq> None)"
  proof
    fix a assume a: "a \<in> set L"
    with live obtain od where od: "objs0 a = Some od" and tg: "targets (oop_fields od) \<subseteq> set L"
      by blast
    have "\<forall>t \<in> targets (oop_fields od). ?objs2 t \<noteq> None"
      using tg ne by (auto simp: forward_all_None_iff)
    with o2 [OF a od] show "\<exists>od. ?objs2 a = Some od \<and>
      (\<forall>t \<in> targets (oop_fields od). ?objs2 t \<noteq> None)" by (cases "F a = a") simp_all
  qed
  let ?objs3 = "adjust_all (adj ?objs2) (set L) ?objs2"
  from adjust_fold [OF d v2 refl]
  have s3: "fold_opt adjust_do_object L (?objs2, ()) = Some (?objs3, ())" .
  have o3: "\<And>a od. a \<in> set L \<Longrightarrow> objs0 a = Some od \<Longrightarrow>
      ?objs3 a = Some ((if F a \<noteq> a then od\<lparr>mark_word := Forwarding (F a)\<rparr> else od)
                        \<lparr>oop_fields := map (map_option F) (oop_fields od)\<rparr>)"
  proof -
    fix a od assume a: "a \<in> set L" and od: "objs0 a = Some od"
    with live have tg: "targets (oop_fields od) \<subseteq> set L" by fastforce
    from adj_forward_all [OF unm tg, of F]
    have "map (adj ?objs2) (oop_fields od) = map (map_option F) (oop_fields od)" .
    with a o2 [OF a od] show "?objs3 a =
       Some ((if F a \<noteq> a then od\<lparr>mark_word := Forwarding (F a)\<rparr> else od)
                        \<lparr>oop_fields := map (map_option F) (oop_fields od)\<rparr>)"
      by (cases "F a = a") (simp_all add: adjust_all_def)
  qed
  have n3: "\<And>x. ?objs3 x = None \<longleftrightarrow> objs0 x = None"
    by (simp add: adjust_all_None_iff forward_all_None_iff)
  have "\<forall>t \<in> targets rs. ?objs3 t \<noteq> None" using rts ne by (auto simp: n3)
  from slots_do_adjust [OF this] adj_forward_all [OF unm rts, of F]
  have r3: "slots_do (adjust_do_oop_work ?objs3) rs () = Some (map (map_option F) rs, ())"
    by (simp add: adj_adjust_all)
  have f3: "\<And>a. a \<in> set L \<Longrightarrow>
      forwardee_of ?objs3 a = Some (if F a \<noteq> a then Some (F a) else None)"
  proof -
    fix a assume a: "a \<in> set L"
    with unm obtain od where od: "objs0 a = Some od" "\<not> mark_is_marked (mark_word od)" by blast
    from forwardee_of_forward_all [where objs = objs0 and t = a and F = F and A = "set L", OF od a]
    show "forwardee_of ?objs3 a = Some (if F a \<noteq> a then Some (F a) else None)"
      by (simp add: forwardee_of_adjust_all)
  qed
  let ?keep = "filter P L"
  let ?pm3 = "rev (map (\<lambda>a. (F a, mark_at objs0 a)) ?keep)"
  have "\<forall>(a, m) \<in> set ?pm2. ?objs3 a \<noteq> None"
    using ne by (auto simp: preserved_of_def n3)
  from adjust_during_full_gc_eq [OF this]
  have "adjust_during_full_gc ?objs3 ?pm2 =
     Some (map (\<lambda>(a, m). (case forwardee_of ?objs3 a of Some (Some f) \<Rightarrow> f | _ \<Rightarrow> a, m)) ?pm2)" .
  also have "map (\<lambda>(a, m). (case forwardee_of ?objs3 a of Some (Some f) \<Rightarrow> f | _ \<Rightarrow> a, m)) ?pm2 =
     ?pm3"
    unfolding preserved_of_def rev_map [symmetric] P map_map
    by (intro arg_cong [where f = rev] map_cong refl) (simp add: f3)
  finally have p3: "adjust_during_full_gc ?objs3 ?pm2 = Some ?pm3" .
  \<comment> \<open>step 4\<close>
  have A2: "\<forall>a \<in> set L. \<exists>od. ?objs3 a = Some od \<and> obj_size od = ?sz a \<and>
           (if fwd_of ?sz bottom L a = a then \<not> mark_is_marked (mark_word od)
            else mark_word od = Forwarding (fwd_of ?sz bottom L a))"
  proof
    fix a assume a: "a \<in> set L"
    with unm obtain od where od: "objs0 a = Some od" "\<not> mark_is_marked (mark_word od)" by blast
    from o3 [OF a od(1)] od show "\<exists>od. ?objs3 a = Some od \<and> obj_size od = ?sz a \<and>
           (if fwd_of ?sz bottom L a = a then \<not> mark_is_marked (mark_word od)
            else mark_word od = Forwarding (fwd_of ?sz bottom L a))"
      by (cases "F a = a") (simp_all add: size_at_def F)
  qed
  have A3: "\<forall>a \<in> set L. \<forall>d. a < d \<and> d < a + ?sz a \<longrightarrow> ?objs3 d = None"
  proof (intro ballI allI impI)
    fix a d assume a: "a \<in> set L" and dd: "a < d \<and> d < a + ?sz a"
    with live obtain od where "objs0 a = Some od"
      "\<forall>d. a < d \<and> d < a + obj_size od \<longrightarrow> objs0 d = None" by blast
    with dd have "objs0 d = None" by (simp add: size_at_def)
    then show "?objs3 d = None" by (simp add: n3)
  qed
  have A5: "\<forall>d od. d < bottom \<longrightarrow> ?objs3 d = Some od \<longrightarrow> d + obj_size od \<le> bottom"
  proof (intro allI impI)
    fix d od assume "d < bottom" "?objs3 d = Some od"
    with below n3 [of d] show "d + obj_size od \<le> bottom" by simp
  qed
  from move_fold [OF sl A2 A3 A5, of 0] obtain objs4 where
    s4: "fold_opt move_do_object L (?objs3, 0) = Some (objs4, length (filter (\<lambda>a. F a \<noteq> a) L))"
    and b4: "\<forall>d < bottom. objs4 d = ?objs3 d"
    and o4: "\<forall>a \<in> set L. objs4 (F a) =
            map_option (\<lambda>od. if F a = a then od else od\<lparr>mark_word := prototype\<rparr>) (?objs3 a)"
    and c4: "\<forall>d. bottom \<le> d \<and> d < new_top \<and> objs4 d \<noteq> None \<longrightarrow> d \<in> F ` set L"
    by (auto simp: F nt)
  \<comment> \<open>step 5\<close>
  have dk: "distinct (map fst ?pm3)"
  proof -
    have "map fst ?pm3 = rev (map F ?keep)" by (simp add: rev_map comp_def)
    moreover have "distinct (map F ?keep)"
      using d inj by (auto simp: distinct_map intro: inj_on_subset)
    ultimately show ?thesis by simp
  qed
  have "\<forall>(x, m) \<in> set ?pm3. objs4 x \<noteq> None"
  proof -
    have "\<And>a. a \<in> set L \<Longrightarrow> objs4 (F a) \<noteq> None"
    proof -
      fix a assume a: "a \<in> set L"
      with ne n3 [of a] have "?objs3 a \<noteq> None" by simp
      with o4 a show "objs4 (F a) \<noteq> None" by simp
    qed
    then show ?thesis by auto
  qed
  from restore_eq [OF dk this]
  have s5: "restore ?pm3 objs4 =
     Some (\<lambda>x. case map_of ?pm3 x of
                 None \<Rightarrow> objs4 x
               | Some m \<Rightarrow> map_option (\<lambda>od. od\<lparr>mark_word := m\<rparr>) (objs4 x))" .
  let ?objs5 = "\<lambda>x. case map_of ?pm3 x of
                 None \<Rightarrow> objs4 x
               | Some m \<Rightarrow> map_option (\<lambda>od. od\<lparr>mark_word := m\<rparr>) (objs4 x)"
  have mo: "\<And>a. a \<in> set L \<Longrightarrow>
      map_of ?pm3 (F a) = (if P a then Some (mark_at objs0 a) else None)"
  proof -
    fix a assume a: "a \<in> set L"
    show "map_of ?pm3 (F a) = (if P a then Some (mark_at objs0 a) else None)"
    proof (cases "P a")
      case True
      with a have "(F a, mark_at objs0 a) \<in> set ?pm3" by simp
      from map_of_is_SomeI [OF dk this] True show ?thesis by simp
    next
      case False
      have "F a \<notin> fst ` set ?pm3"
      proof
        assume "F a \<in> fst ` set ?pm3"
        then obtain b where b: "b \<in> set L" "P b" "F b = F a" by force
        with inj a have "b = a" by (auto dest: inj_onD)
        with b False show False by simp
      qed
      then have "map_of ?pm3 (F a) = None" by (rule map_of_eq_None_iff [THEN iffD2])
      with False show ?thesis by simp
    qed
  qed
  have o5: "\<forall>a \<in> set L. ?objs5 (F a) = map_option (relocated F) (objs0 a)"
  proof
    fix a assume a: "a \<in> set L"
    with unm obtain od where od: "objs0 a = Some od" "\<not> mark_is_marked (mark_word od)" by blast
    from o4 [rule_format, OF a] o3 [OF a od(1)]
    have 4: "objs4 (F a) = Some (if F a = a then od\<lparr>oop_fields := map (map_option F) (oop_fields od)\<rparr>
        else od\<lparr>mark_word := prototype, oop_fields := map (map_option F) (oop_fields od)\<rparr>)"
      by (cases "F a = a") simp_all
    have mk: "mark_at objs0 a = mark_word od" using od by (simp add: mark_at_def)
    show "?objs5 (F a) = map_option (relocated F) (objs0 a)"
    proof (cases "F a = a")
      case True
      then have "\<not> P a" by (simp add: P)
      with mo [OF a] 4 True od show ?thesis by (simp add: relocated_def)
    next
      case False
      show ?thesis
      proof (cases "must_be_preserved (mark_word od)")
        case True
        with False mk have "P a" by (simp add: P)
        with mo [OF a] 4 False od mk show ?thesis by (simp add: relocated_def)
      next
        case np: False
        with mk have "\<not> P a" by (simp add: P)
        moreover from np have "mark_word od = prototype" by (simp add: must_be_preserved_def)
        then have "od\<lparr>mark_word := prototype\<rparr> = od" by (cases od) simp
        ultimately show ?thesis using mo [OF a] 4 False od by (simp add: relocated_def)
      qed
    qed
  qed
  have c5: "\<forall>x. x < new_top \<and> ?objs5 x \<noteq> None \<longrightarrow> x \<in> F ` set L"
  proof (intro allI impI)
    fix x assume x: "x < new_top \<and> ?objs5 x \<noteq> None"
    then have n: "objs4 x \<noteq> None" by (auto split: option.splits)
    show "x \<in> F ` set L"
    proof (cases "x < bottom")
      case True
      with b4 n have "?objs3 x \<noteq> None" by simp
      with below True n3 [of x] show ?thesis by simp
    next
      case False
      with c4 n x show ?thesis by simp
    qed
  qed
  from s2 l2 s3 r3 p3 s4 s5 o5 c5 show ?thesis by blast
qed

lemma sliding_raise:
  "sliding sz cp xs \<Longrightarrow> \<forall>y \<in> set xs. cp' \<le> y \<Longrightarrow> sliding sz cp' xs"
proof (induction xs arbitrary: cp cp')
  case Nil
  show ?case by simp
next
  case (Cons x xs)
  from Cons.prems have 1: "cp' \<le> x" "0 < sz x" "\<forall>y \<in> set xs. x + sz x \<le> y"
    "sliding sz (cp + sz x) xs" by auto
  then have "\<forall>y \<in> set xs. cp' + sz x \<le> y" by fastforce
  from Cons.IH [OF 1(4) this] 1 show ?case by simp
qed

lemma tiled_id:
  "sliding sz cp xs \<Longrightarrow> \<forall>a \<in> set xs. a + sz a \<le> t \<Longrightarrow> cp + sum_list (map sz xs) = t \<Longrightarrow>
   a \<in> set xs \<Longrightarrow> fwd_of sz cp xs a = a"
proof (induction xs arbitrary: cp)
  case Nil
  then show ?case by simp
next
  case (Cons x xs)
  from Cons.prems(1) have cpx: "cp \<le> x" and later: "\<forall>y \<in> set xs. x + sz x \<le> y"
    and sl1: "sliding sz (cp + sz x) xs" by auto
  from Cons.prems(2) have le: "\<forall>a \<in> set xs. a + sz a \<le> t" and xt: "x + sz x \<le> t" by auto
  from sliding_raise [OF sl1 later] have "sliding sz (x + sz x) xs" .
  from sliding_total [OF this xt le] have "x + sz x + sum_list (map sz xs) \<le> t" .
  with Cons.prems(3) cpx have e: "cp = x" by simp
  show ?case
  proof (cases "a = x")
    case True
    with e show ?thesis by simp
  next
    case False
    with Cons.prems(4) have a: "a \<in> set xs" by simp
    from Cons.prems(3) have "cp + sz x + sum_list (map sz xs) = t" by (simp add: add.assoc)
    from Cons.IH [OF sl1 le this a] False show ?thesis by simp
  qed
qed

lemma reachable_relocated:
  assumes L: "set L = reachable objs0 rs"
    and o5: "\<forall>a \<in> set L. objs5 (F a) = map_option (relocated F) (objs0 a)"
    and ne: "\<forall>a \<in> set L. objs0 a \<noteq> None"
  shows "reachable objs5 (map (map_option F) rs) = F ` set L"
proof
  show "reachable objs5 (map (map_option F) rs) \<subseteq> F ` set L"
  proof
    fix x assume "x \<in> reachable objs5 (map (map_option F) rs)"
    then show "x \<in> F ` set L"
    proof (induction rule: reachable.induct)
      case (root r)
      then have "Some r \<in> map_option F ` set rs" by simp
      then obtain p where p: "p \<in> set rs" "Some r = map_option F p" by blast
      from p(2) obtain r0 where "p = Some r0" "r = F r0" by (cases p) auto
      with p L show ?case by (auto intro: reachable.root)
    next
      case (field a od t)
      then obtain a0 where a0: "a0 \<in> set L" "a = F a0" by blast
      with ne obtain od0 where od0: "objs0 a0 = Some od0" by blast
      with o5 a0 field.hyps(2) have "od = relocated F od0" by simp
      with field.hyps(3) have "Some t \<in> map_option F ` set (oop_fields od0)"
        by (simp add: relocated_def)
      then obtain p where p: "p \<in> set (oop_fields od0)" "Some t = map_option F p" by blast
      from p(2) obtain t0 where t0: "p = Some t0" "t = F t0" by (cases p) auto
      from a0 L have "a0 \<in> reachable objs0 rs" by simp
      from reachable.field [OF this od0] p t0 have "t0 \<in> reachable objs0 rs" by simp
      with L t0 show ?case by blast
    qed
  qed
next
  have "\<And>a. a \<in> reachable objs0 rs \<Longrightarrow> F a \<in> reachable objs5 (map (map_option F) rs)"
  proof -
    fix a assume "a \<in> reachable objs0 rs"
    then show "F a \<in> reachable objs5 (map (map_option F) rs)"
    proof (induction rule: reachable.induct)
      case (root r)
      then have "Some (F r) \<in> set (map (map_option F) rs)" by force
      then show ?case by (rule reachable.root)
    next
      case (field a od t)
      from field.hyps(1) L have a: "a \<in> set L" by simp
      with o5 field.hyps(2) have 5: "objs5 (F a) = Some (relocated F od)" by simp
      from field.hyps(3) have "Some (F t) \<in> set (oop_fields (relocated F od))"
        by (force simp: relocated_def)
      from reachable.field [OF field.IH 5 this] show ?case .
    qed
  qed
  with L show "F ` set L \<subseteq> reachable objs5 (map (map_option F) rs)" by blast
qed

section \<open>Well-formed heaps\<close>

text \<open>
  \<open>heap_ok\<close>: the bitmap covers the allocation space; every reachable address lies in
  \<open>[bottom, top)\<close> and holds an object of positive size that ends at or below \<open>top\<close>, has
  an ordinary mark word, and has no other object starting inside it; nothing lies below
  \<open>bottom\<close>. \<open>vs_ok\<close>: the allocation space is the committed part of the virtual space.
\<close>

definition heap_ok :: "EpsilonHeap \<Rightarrow> bool" where
  "heap_ok s =
     (covered_start (bitmap s) \<le> space_bottom s \<and> space_bottom s \<le> space_top s \<and>
      space_top s \<le> covered_end (bitmap s) \<and>
      (\<forall>d < space_bottom s. objects s d = None) \<and>
      (\<forall>a \<in> reachable (objects s) (roots s).
         space_bottom s \<le> a \<and> a < space_top s \<and>
         (\<exists>od. objects s a = Some od \<and> 0 < obj_size od \<and> a + obj_size od \<le> space_top s \<and>
            \<not> mark_is_marked (mark_word od) \<and>
            (\<forall>d. a < d \<and> d < a + obj_size od \<longrightarrow> objects s d = None))))"

definition vs_ok :: "EpsilonHeap \<Rightarrow> bool" where
  "vs_ok s =
     (space_top s \<le> space_end s \<and> vs_low s = space_bottom s * HeapWordSize \<and>
      vs_high s = space_end s * HeapWordSize \<and> vs_high s < size_t_max)"

lemma verify_scan_slot:
  assumes "\<forall>t \<in> targets ps. b \<le> t \<and> t < tp \<and>
             (\<exists>od. objs t = Some od \<and> \<not> mark_is_marked (mark_word od))"
  shows "slots_do (verify_do_oop_work b tp objs) ps c = slots_do scan_do_oop_work ps c"
  using assms
proof (induction ps arbitrary: c)
  case Nil
  show ?case by simp
next
  case (Cons p ps)
  obtain bm st where c: "c = (bm, st)" by (cases c)
  have h: "verify_do_oop_work b tp objs p c = scan_do_oop_work p c"
  proof (cases p)
    case None
    with c show ?thesis by (simp add: verify_do_oop_work_def scan_do_oop_work_def)
  next
    case (Some t)
    with Cons.prems obtain od where "b \<le> t" "t < tp" "objs t = Some od"
      "\<not> mark_is_marked (mark_word od)" by auto
    with c Some show ?thesis
      by (simp add: verify_do_oop_work_def scan_do_oop_work_def Let_def)
  qed
  from Cons.prems have "\<forall>t \<in> targets ps. b \<le> t \<and> t < tp \<and>
             (\<exists>od. objs t = Some od \<and> \<not> mark_is_marked (mark_word od))"
    by (cases p) simp_all
  from Cons.IH [OF this] h show ?case by (simp split: option.splits)
qed

lemma verify_loop_mark_loop:
  assumes "\<forall>a \<in> reachable objs rs. b \<le> a \<and> a < tp \<and> covers bm a \<and>
             (\<exists>od. objs a = Some od \<and> \<not> mark_is_marked (mark_word od))"
    and "set stack \<subseteq> reachable objs rs"
  shows "verify_loop b tp (objs, bm, stack, n) = mark_loop (objs, bm, stack, n)"
  using assms
proof (induction "unmarked_count bm + length stack" arbitrary: bm stack n rule: less_induct)
  case less
  note valid = less.prems(1) and sub = less.prems(2)
  let ?R = "reachable objs rs"
  show ?case
  proof (cases stack)
    case Nil
    then show ?thesis by (subst verify_loop.simps, subst mark_loop.simps) simp
  next
    case (Cons obj rest)
    with sub have objR: "obj \<in> ?R" and restR: "set rest \<subseteq> ?R" by auto
    with valid obtain od where od: "objs obj = Some od" by blast
    from reachable_fields [OF objR od] have tR: "targets (oop_fields od) \<subseteq> ?R" .
    with valid have cov: "\<forall>t \<in> targets (oop_fields od). covers bm t" by blast
    from tR valid have vt: "\<forall>t \<in> targets (oop_fields od). b \<le> t \<and> t < tp \<and>
             (\<exists>od. objs t = Some od \<and> \<not> mark_is_marked (mark_word od))" by blast
    from oop_iterate_scan [where objs = objs and obj = obj and od = od and bm = bm and st = rest,
        OF od cov] obtain bm' st' where
      it: "oop_iterate scan_do_oop_work obj (objs, (bm, rest)) = Some (objs, (bm', st'))"
      and sl: "slots_do scan_do_oop_work (oop_fields od) (bm, rest) = Some (oop_fields od, bm', st')"
      by blast
    from verify_scan_slot [OF vt, of "(bm, rest)"] od
    have eq: "oop_iterate (verify_do_oop_work b tp objs) obj (objs, (bm, rest)) =
              oop_iterate scan_do_oop_work obj (objs, (bm, rest))"
      by (simp add: oop_iterate_def)
    from slots_do_scan_spec [OF cov, of rest] sl have
      cs: "covered_start bm' = covered_start bm" and ce: "covered_end bm' = covered_end bm"
      and s': "set st' = set rest \<union> (targets (oop_fields od) - bits bm)"
      by auto
    from slots_do_scan_measure [OF sl] Cons
    have dec: "unmarked_count bm' + length st' < unmarked_count bm + length stack" by simp
    have valid': "\<forall>a \<in> ?R. b \<le> a \<and> a < tp \<and> covers bm' a \<and>
             (\<exists>od. objs a = Some od \<and> \<not> mark_is_marked (mark_word od))"
      using valid covers_cong [OF cs ce] by simp
    have sub': "set st' \<subseteq> ?R" using s' restR tR by auto
    from less.hyps [OF dec valid' sub']
    have ih: "verify_loop b tp (objs, bm', st', n + 1) = mark_loop (objs, bm', st', n + 1)" .
    have 1: "verify_loop b tp (objs, bm, stack, n) = verify_loop b tp (objs, bm', st', n + 1)"
      using Cons it eq by (subst verify_loop.simps) simp
    have 2: "mark_loop (objs, bm, stack, n) = mark_loop (objs, bm', st', n + 1)"
      using Cons it by (subst mark_loop.simps) simp
    from 1 2 ih show ?thesis by simp
  qed
qed

lemma heap_ok_mark_ok:
  "heap_ok s \<Longrightarrow> mark_ok (s\<lparr>bitmap := clear_bitmap (bitmap s)\<rparr>)"
  by (fastforce simp: heap_ok_def mark_ok_def clear_bitmap_def covers_def)

lemma verify_heap_ok:
  assumes "heap_ok s"
  shows "\<exists>bm. verify_heap s (card (targets (roots s))) (card (reachable (objects s) (roots s))) =
           Some (s\<lparr>bitmap := bm\<rparr>) \<and>
         covered_start bm = covered_start (bitmap s) \<and> covered_end bm = covered_end (bitmap s)"
proof -
  let ?R = "reachable (objects s) (roots s)"
  let ?s0 = "s\<lparr>bitmap := clear_bitmap (bitmap s)\<rparr>"
  let ?b = "space_bottom s" and ?t = "space_top s"
  from step1_mark_correct [OF heap_ok_mark_ok [OF assms]] obtain bm1 st1 bm where
    p: "process_roots scan_do_oop_work False (roots s) (clear_bitmap (bitmap s), []) =
          Some (roots s, bm1, st1)"
    and len: "length st1 = card (targets (roots s))"
    and m: "mark_loop (objects s, bm1, st1, 0) = Some (objects s, bm, [], card ?R)"
    and cs: "covered_start bm = covered_start (bitmap s)"
    and ce: "covered_end bm = covered_end (bitmap s)"
    by (auto simp: clear_bitmap_def)
  have tr: "targets (roots s) \<subseteq> ?R" by (auto simp: targets_def intro: reachable.root)
  have valid: "\<forall>a \<in> ?R. ?b \<le> a \<and> a < ?t \<and>
      (\<exists>od. objects s a = Some od \<and> \<not> mark_is_marked (mark_word od))"
    using assms by (fastforce simp: heap_ok_def)
  have cov0: "\<forall>a \<in> ?R. covers (clear_bitmap (bitmap s)) a"
    using assms by (fastforce simp: heap_ok_def covers_def clear_bitmap_def)
  from valid tr have "\<forall>t \<in> targets (roots s). ?b \<le> t \<and> t < ?t \<and>
      (\<exists>od. objects s t = Some od \<and> \<not> mark_is_marked (mark_word od))" by blast
  from verify_scan_slot [OF this, of "(clear_bitmap (bitmap s), [])"] p
  have pv: "process_roots (verify_do_oop_work ?b ?t (objects s)) False (roots s)
              (clear_bitmap (bitmap s), []) = Some (roots s, bm1, st1)"
    by (simp add: process_roots_def)
  from cov0 tr have "\<forall>t \<in> targets (roots s). covers (clear_bitmap (bitmap s)) t" by blast
  from slots_do_scan_spec [OF this, of "[]"] p
  have cs1: "covered_start bm1 = covered_start (clear_bitmap (bitmap s))"
    and ce1: "covered_end bm1 = covered_end (clear_bitmap (bitmap s))"
    and st1: "set st1 = targets (roots s) - bits (clear_bitmap (bitmap s))"
    by (auto simp: process_roots_def)
  have valid1: "\<forall>a \<in> ?R. ?b \<le> a \<and> a < ?t \<and> covers bm1 a \<and>
      (\<exists>od. objects s a = Some od \<and> \<not> mark_is_marked (mark_word od))"
    using valid cov0 covers_cong [OF cs1 ce1] by simp
  have sub: "set st1 \<subseteq> ?R" using st1 tr by auto
  from verify_loop_mark_loop [OF valid1 sub, of 0] m
  have vl: "verify_loop ?b ?t (objects s, bm1, st1, 0) = Some (objects s, bm, [], card ?R)"
    by simp
  have "verify_heap s (card (targets (roots s))) (card ?R) = Some (s\<lparr>bitmap := bm\<rparr>)"
    using pv vl len by (simp add: verify_heap_def Let_def)
  with cs ce show ?thesis by blast
qed

section \<open>Concrete states used for evaluation\<close>

definition flags0 :: flags where
  "flags0 = \<lparr>EpsilonSlidingGC = True, EpsilonImplicitGC = True, EpsilonElasticTLAB = True,
     EpsilonElasticTLABDecay = True, EpsilonVerify = True, EpsilonUncommit = False,
     EpsilonMinHeapExpand = 16, MinObjAlignment = 1, tlab_elasticity = (\<lambda>n. n + n div 10),
     max_tlab_size = 64, decay_time_ns = 1000, step_counter_update = 1024,
     step_heap_print = 2048, log_trace_gc = False\<rparr>"

definition tld0 :: EpsilonThreadLocalData where
  "tld0 = \<lparr>ergo_tlab_size = 0, last_tlab_time = 0\<rparr>"

definition heap0 :: EpsilonHeap where
  "heap0 = \<lparr>space_bottom = 0, space_top = 0, space_end = 4,
     vs_low = 0, vs_high = 32, vs_high_boundary = 64,
     objects = Map.empty, roots = [],
     bitmap = \<lparr>covered_start = 0, covered_end = 8, bits = {}\<rparr>,
     gc_locker_count = 0, gc_locker_blocked = False, req_id = 0, heap_lock_held = False,
     tld = (\<lambda>t. tld0), last_counter_update = 0, last_heap_print = 0,
     counter_updates = 0, gc_log = []\<rparr>"

definition os_ok :: os_answers where
  "os_ok = \<lparr>commit_ok = True, uncommit_ok = True\<rparr>"

text \<open>
  A heap of 8 reserved words of which 4 are committed and all 4 are used: the committed
  space is full and exactly 4 words (32 bytes) are left in the reservation.
\<close>

definition heap_full :: EpsilonHeap where
  "heap_full = heap0\<lparr>space_top := 4\<rparr>"

text \<open>Thread 0 has an ergonomic TLAB size of 32 words and has never allocated a TLAB.\<close>

definition heap_tlab_never :: EpsilonHeap where
  "heap_tlab_never = heap0\<lparr>tld := (\<lambda>t. \<lparr>ergo_tlab_size = 32, last_tlab_time = 0\<rparr>)\<rparr>"

text \<open>Thread 0 has an ergonomic TLAB size of 32 words and allocated a TLAB at time 100.\<close>

definition heap_tlab_idle :: EpsilonHeap where
  "heap_tlab_idle = heap0\<lparr>tld := (\<lambda>t. \<lparr>ergo_tlab_size = 32, last_tlab_time = 100\<rparr>)\<rparr>"

text \<open>A class with two oop fields of its own, one inherited, above a root class with none.\<close>

definition klass_AB :: InstanceKlass where
  "klass_AB = InstanceKlass 2 (Some (InstanceKlass 1 (Some (InstanceKlass 0 None))))"

text \<open>
  A heap of 8 words with three objects: a live one at 0, a dead one at 2, and a live one
  at 5 with a hashed mark word that refers to the first and to itself; the roots refer
  to the object at 5 twice.
\<close>

definition objs_ex :: "addr \<rightharpoonup> oopDesc" where
  "objs_ex = [0 \<mapsto> \<lparr>mark_word = Header 0, obj_size = 2, oop_fields = [Some 5]\<rparr>,
              2 \<mapsto> \<lparr>mark_word = Header 0, obj_size = 3, oop_fields = [Some 0, None]\<rparr>,
              5 \<mapsto> \<lparr>mark_word = Header 7, obj_size = 3, oop_fields = [Some 0, Some 5]\<rparr>]"

definition heap_ex :: EpsilonHeap where
  "heap_ex = heap0\<lparr>space_top := 8, space_end := 8, vs_high := 64,
     objects := objs_ex, roots := [Some 5, None, Some 5]\<rparr>"

text \<open>The same heap after the mark step.\<close>

definition heap_ex_marked :: EpsilonHeap where
  "heap_ex_marked = heap_ex\<lparr>bitmap := \<lparr>covered_start = 0, covered_end = 8, bits = {0, 5}\<rparr>\<rparr>"

lemma reachable_heap_ex: "reachable (objects heap_ex) (roots heap_ex) = {0, 5}"
proof
  show "reachable (objects heap_ex) (roots heap_ex) \<subseteq> {0, 5}"
  proof
    fix x assume "x \<in> reachable (objects heap_ex) (roots heap_ex)"
    then show "x \<in> {0, 5}"
      by (induction rule: reachable.induct)
        (auto simp: heap_ex_def heap0_def objs_ex_def split: if_splits)
  qed
next
  have 5: "5 \<in> reachable (objects heap_ex) (roots heap_ex)"
    by (rule reachable.root) (simp add: heap_ex_def)
  have o5: "objects heap_ex 5 =
      Some \<lparr>mark_word = Header 7, obj_size = 3, oop_fields = [Some 0, Some 5]\<rparr>"
    by (simp add: heap_ex_def objs_ex_def)
  have "0 \<in> reachable (objects heap_ex) (roots heap_ex)"
    by (rule reachable.field [OF 5 o5]) simp
  with 5 show "{0, 5} \<subseteq> reachable (objects heap_ex) (roots heap_ex)" by simp
qed

lemma mark_ok_heap_ex: "mark_ok heap_ex"
  unfolding mark_ok_def reachable_heap_ex
  by (simp add: heap_ex_def heap0_def covers_def objs_ex_def)

lemma calc_ok_heap_ex_marked: "calc_ok heap_ex_marked"
  by (simp add: calc_ok_def heap_ex_marked_def heap_ex_def heap0_def objs_ex_def size_at_def)

lemma forwardee_addr_heap_ex_marked:
  "forwardee_addr heap_ex_marked 0 = 0"
  "forwardee_addr heap_ex_marked 5 = 2"
  "forwardee_addr heap_ex_marked 8 = 5"
  by (simp_all add: forwardee_addr_def heap_ex_marked_def heap_ex_def heap0_def objs_ex_def
      size_at_def marked_addrs_def is_marked_def upt_rec)

section \<open>Properties\<close>

subsection \<open>The request coalescer\<close>

text \<open>
  Claim C3. The prologue returns false, with the heap lock released and the request id
  untouched, exactly when the id loaded before the lock is strictly less than the id
  re-read under the lock. Otherwise it returns true, keeps the lock, and the request id
  has grown by exactly one (as a \<open>size_t\<close>).
\<close>

theorem doit_prologue_coalesces:
  "(fst (doit_prologue id0 s) = False \<longleftrightarrow> id0 < req_id s) \<and>
   (id0 < req_id s \<longrightarrow>
      doit_prologue id0 s = (False, s\<lparr>heap_lock_held := False\<rparr>)) \<and>
   (\<not> id0 < req_id s \<longrightarrow>
      doit_prologue id0 s =
        (True, s\<lparr>heap_lock_held := True, req_id := size_t_inc (req_id s)\<rparr>) \<and>
      (req_id s + 1 < size_t_max \<longrightarrow> req_id (snd (doit_prologue id0 s)) = req_id s + 1))"
  by (simp add: doit_prologue_def Let_def size_t_inc_def)

theorem doit_prologue_coalesces_witness:
  "fst (doit_prologue 3 (heap0\<lparr>req_id := 5\<rparr>)) = False \<and>
   heap_lock_held (snd (doit_prologue 3 (heap0\<lparr>req_id := 5\<rparr>))) = False \<and>
   req_id (snd (doit_prologue 3 (heap0\<lparr>req_id := 5\<rparr>))) = 5 \<and>
   fst (doit_prologue 5 (heap0\<lparr>req_id := 5\<rparr>)) = True \<and>
   heap_lock_held (snd (doit_prologue 5 (heap0\<lparr>req_id := 5\<rparr>))) = True \<and>
   req_id (snd (doit_prologue 5 (heap0\<lparr>req_id := 5\<rparr>))) = 6"
  using doit_prologue_coalesces [of 3 "heap0\<lparr>req_id := 5\<rparr>"]
    doit_prologue_coalesces [of 5 "heap0\<lparr>req_id := 5\<rparr>"]
  by (simp add: heap0_def size_t_max_def size_t_inc_def)

subsection \<open>The expansion protocol\<close>

text \<open>
  Claim C1. The claim says that a request whose byte size exactly equals the unused
  space does not return null. In \<open>heap_full\<close> the request of 4 words is 32 bytes, the
  unused and the uncommitted space are 32 bytes each, and \<open>allocate_work\<close> returns null
  with the heap unchanged, although expanding by the uncommitted remainder would let
  \<open>par_allocate\<close> succeed at address 4.
\<close>

theorem allocate_work_exact_fit_returns_null:
  "size_t_mul 4 HeapWordSize = size_t_sub (max_capacity heap_full) (used heap_full) \<and>
   max (size_t_mul 4 HeapWordSize) (EpsilonMinHeapExpand flags0) =
     size_t_sub (max_capacity heap_full) (capacity heap_full) \<and>
   allocate_work flags0 os_ok 4 True heap_full = Some (None, heap_full) \<and>
   fst (par_allocate 4
          (let s3 = snd (expand_by os_ok 32 heap_full)
           in set_end (vs_high s3 div HeapWordSize) s3)) = Some 4"
proof -
  have "allocate_work_loop flags0 os_ok 4 heap_full = Some (None, heap_full)"
    by (subst allocate_work_loop.simps)
      (simp add: heap_full_def heap0_def flags0_def par_allocate_def size_t_mul_def
        size_t_sub_def HeapWordSize_def size_t_max_def max_capacity_def capacity_def
        used_def Let_def)
  then have "allocate_work flags0 os_ok 4 True heap_full = Some (None, heap_full)"
    by (simp add: allocate_work_def)
  then show ?thesis
    by (simp add: heap_full_def heap0_def flags0_def size_t_mul_def size_t_sub_def
        expand_by_def os_ok_def set_end_def par_allocate_def HeapWordSize_def size_t_max_def
        max_capacity_def capacity_def used_def Let_def)
qed

subsection \<open>TLAB decay\<close>

text \<open>
  Claim C5, as stated, fails for the stored value 0 of \<open>last_alloc_time\<close>: thread 0 of
  \<open>heap_tlab_never\<close> has never allocated, more than the decay time has passed since
  time 0, and its ergonomic size stays 32.
\<close>

theorem tlab_decay_counterexample:
  "EpsilonElasticTLAB flags0 \<and> EpsilonElasticTLABDecay flags0 \<and>
   5000 - last_tlab_time (tld heap_tlab_never 0) > decay_time_ns flags0 \<and>
   fst (tlab_ergo flags0 5000 0 8 heap_tlab_never) = 32 \<and>
   ergo_tlab_size (tld (snd (snd (tlab_ergo flags0 5000 0 8 heap_tlab_never))) 0) = 32"
  by (simp add: tlab_ergo_def flags0_def heap_tlab_never_def heap0_def Let_def)

text \<open>
  Claim C5, amended. With elastic TLABs and decay enabled, whenever the stored
  \<open>last_alloc_time\<close> of the calling thread is not 0 and \<open>now - last_alloc_time\<close> exceeds
  the decay time, the ergonomic size is reset to 0, both the local value and the
  thread's stored one, before the size of this allocation is computed: the size is the
  one \<open>tlab_size\<close> computes from the ergonomic size 0, and the allocation runs in the
  state with the stored value reset.
\<close>

theorem tlab_decay_resets_ergo:
  assumes "EpsilonElasticTLAB fl" and "EpsilonElasticTLABDecay fl"
    and "last_tlab_time (tld s thread) \<noteq> 0"
    and "now - last_tlab_time (tld s thread) > decay_time_ns fl"
  shows "tlab_ergo fl now thread requested_size s = (0, now, set_ergo_tlab_size thread 0 s) \<and>
    ergo_tlab_size (tld (set_ergo_tlab_size thread 0 s) thread) = 0 \<and>
    allocate_new_tlab fl os now thread min_size requested_size s =
      (case tlab_size fl min_size requested_size 0 of
         (fits, sz) \<Rightarrow>
           (let s1 = set_ergo_tlab_size thread 0 s;
                s2 = (if log_trace_gc fl
                      then log_emit (LogTLAB requested_size min_size (max_tlab_size fl) 0 sz) s1
                      else s1)
            in case allocate_or_collect_work fl os sz True s2 of
                 None \<Rightarrow> None
               | Some (Some res, s3) \<Rightarrow>
                   Some ((Some res, Some sz),
                         if \<not> fits
                         then set_ergo_tlab_size thread sz (set_last_tlab_time thread now s3)
                         else set_last_tlab_time thread now s3)
               | Some (None, s3) \<Rightarrow> Some ((None, None), set_ergo_tlab_size thread 0 s3)))"
  using assms
  by (simp add: tlab_ergo_def allocate_new_tlab_def Let_def set_ergo_tlab_size_def
      split: prod.splits option.splits)

theorem tlab_decay_resets_ergo_witness:
  "fst (tlab_ergo flags0 5000 0 8 heap_tlab_idle) = 0 \<and>
   ergo_tlab_size (tld (snd (snd (tlab_ergo flags0 5000 0 8 heap_tlab_idle))) 0) = 0"
  using tlab_decay_resets_ergo [of flags0 heap_tlab_idle 0 5000 8 os_ok 4]
  by (simp add: flags0_def heap_tlab_idle_def heap0_def set_ergo_tlab_size_def)

subsection \<open>Early exits of the collection\<close>

text \<open>
  Claim C6. When the pin lock's reader count is non-zero at entry, \<open>entry_collect\<close>
  returns at once and leaves the whole state as it is: bitmap, objects, roots, top and
  end included.
\<close>

theorem entry_collect_locker_active:
  "GCLocker_is_active s \<Longrightarrow> entry_collect fl os cause s = Some s"
  by (simp add: entry_collect_def)

theorem entry_collect_locker_active_witness:
  "GCLocker_is_active (heap0\<lparr>gc_locker_count := 1\<rparr>) \<and>
   entry_collect flags0 os_ok java_lang_system_gc (heap0\<lparr>gc_locker_count := 1\<rparr>) =
     Some (heap0\<lparr>gc_locker_count := 1\<rparr>)"
  using entry_collect_locker_active
    [of "heap0\<lparr>gc_locker_count := 1\<rparr>" flags0 os_ok java_lang_system_gc]
  by (simp add: GCLocker_is_active_def heap0_def)

text \<open>
  Claim C7. When the pin lock is free and committing the bitmap memory fails, the cycle
  is abandoned before marking: \<open>entry_collect\<close> returns the state it was given with the
  warning appended to the log and nothing else changed.
\<close>

theorem entry_collect_commit_failure:
  "\<not> GCLocker_is_active s \<Longrightarrow> \<not> commit_ok os \<Longrightarrow>
   entry_collect fl os cause s =
     Some (s\<lparr>gc_log := gc_log s @
        [LogWarning ''Could not commit native memory for marking bitmap, GC failed'']\<rparr>)"
  by (simp add: entry_collect_def step0_prologue_def log_emit_def)

theorem entry_collect_commit_failure_witness:
  "\<not> GCLocker_is_active heap_full \<and> \<not> commit_ok (os_ok\<lparr>commit_ok := False\<rparr>) \<and>
   entry_collect flags0 (os_ok\<lparr>commit_ok := False\<rparr>) java_lang_system_gc heap_full =
     Some (heap_full\<lparr>gc_log :=
        [LogWarning ''Could not commit native memory for marking bitmap, GC failed'']\<rparr>)"
  using entry_collect_commit_failure
    [of heap_full "os_ok\<lparr>commit_ok := False\<rparr>" flags0 java_lang_system_gc]
  by (simp add: GCLocker_is_active_def heap_full_def heap0_def os_ok_def)

subsection \<open>The pin lock\<close>

text \<open>
  Claim C8, as stated, fails when \<open>EpsilonSlidingGC\<close> is off: \<open>pin_object\<close> and
  \<open>unpin_object\<close> then leave the reader counter alone.
\<close>

theorem pin_object_gate_counterexample:
  "gc_locker_count (pin_object (flags0\<lparr>EpsilonSlidingGC := False\<rparr>) 0 0 heap0)
     \<noteq> gc_locker_count heap0 + 1 \<and>
   gc_locker_count (unpin_object (flags0\<lparr>EpsilonSlidingGC := False\<rparr>) 0 0 heap0)
     \<noteq> gc_locker_count heap0 - 1"
  by (simp add: pin_object_def unpin_object_def flags0_def heap0_def)

text \<open>
  Claim C8, amended. With \<open>EpsilonSlidingGC\<close> enabled, every call of \<open>pin_object\<close>
  increments the reader counter and every call of \<open>unpin_object\<close> decrements it; with
  the flag disabled both leave it unchanged.
\<close>

theorem pin_unpin_counter:
  "gc_locker_count (pin_object fl thread obj s) =
     (if EpsilonSlidingGC fl then gc_locker_count s + 1 else gc_locker_count s) \<and>
   gc_locker_count (unpin_object fl thread obj s) =
     (if EpsilonSlidingGC fl then gc_locker_count s - 1 else gc_locker_count s)"
  by (simp add: pin_object_def unpin_object_def GCLocker_enter_def GCLocker_exit_def)

subsection \<open>The mark step\<close>

text \<open>
  Claim C9. \<open>mark_loop\<close> is a total function: the number of unmarked covered addresses
  plus the height of the stack decreases with every iteration, whatever the object
  graph. For a heap in which every reachable address is covered by the (cleared) bitmap
  and holds an object, the mark step returns: every root target is pushed once, the loop
  runs exactly once per reachable object, it ends with an empty stack, and the bitmap
  then holds exactly the reachable objects.
\<close>

theorem mark_phase_terminates:
  assumes "mark_ok s"
  shows "\<exists>bm1 st1 bm.
     process_roots scan_do_oop_work False (roots s) (bitmap s, []) = Some (roots s, bm1, st1) \<and>
     length st1 = card (targets (roots s)) \<and>
     mark_loop (objects s, bm1, st1, 0) =
       Some (objects s, bm, [], card (reachable (objects s) (roots s))) \<and>
     step1_mark s = Some (s\<lparr>bitmap := bm\<rparr>, card (targets (roots s)),
                          card (reachable (objects s) (roots s))) \<and>
     bits bm = reachable (objects s) (roots s)"
  using step1_mark_correct [OF assms] by blast

theorem mark_phase_terminates_witness:
  "mark_ok heap_ex \<and>
   (\<exists>bm. step1_mark heap_ex = Some (heap_ex\<lparr>bitmap := bm\<rparr>, 1, 2) \<and> bits bm = {0, 5})"
proof -
  have "targets (roots heap_ex) = {5}" by (auto simp: heap_ex_def targets_def)
  with mark_phase_terminates [OF mark_ok_heap_ex] mark_ok_heap_ex show ?thesis
    by (auto simp: reachable_heap_ex)
qed

subsection \<open>The compute-forwarding step\<close>

text \<open>
  Claim C2. Let the marked addresses be objects of positive size inside
  \<open>[bottom, top)\<close> that do not overlap. Then the walk returns; the final compact point
  is \<open>bottom\<close> plus the sum of the sizes of all marked objects and is at most \<open>top\<close>;
  \<open>forwardee_addr s a\<close>, the compact point when the walk reaches the marked object \<open>a\<close>,
  is at most \<open>a\<close>; an object that already sits at its compact point keeps its mark
  word, any other marked object gets the forwarding record to its compact point; the
  assigned addresses increase strictly with the address of the object; and unmarked
  memory is untouched.
\<close>

theorem calc_new_locations:
  assumes "calc_ok s"
  shows "\<exists>s' pm. step2_calc s = Some (s', forwardee_addr s (space_top s), pm) \<and>
     s' = s\<lparr>objects := objects s'\<rparr> \<and>
     forwardee_addr s (space_top s) =
       space_bottom s + (\<Sum>a \<in> bits (bitmap s). size_at (objects s) a) \<and>
     forwardee_addr s (space_top s) \<le> space_top s \<and>
     (\<forall>a \<in> bits (bitmap s).
        forwardee_addr s a \<le> a \<and>
        objects s' a =
          (if forwardee_addr s a = a then objects s a
           else map_option (\<lambda>od. od\<lparr>mark_word := Forwarding (forwardee_addr s a)\<rparr>)
                  (objects s a))) \<and>
     (\<forall>a \<in> bits (bitmap s). \<forall>b \<in> bits (bitmap s).
        a < b \<longrightarrow> forwardee_addr s a < forwardee_addr s b) \<and>
     (\<forall>a. a \<notin> bits (bitmap s) \<longrightarrow> objects s' a = objects s a)"
proof -
  let ?L = "marked_addrs (bitmap s) (space_bottom s) (space_top s)"
  let ?sz = "size_at (objects s)"
  let ?F = "forwardee_addr s"
  note sl = calc_ok_sliding(1) [OF assms] and st = calc_ok_sliding(2) [OF assms]
  have d: "distinct ?L" by (simp add: marked_addrs_def)
  have F: "\<forall>a \<in> set ?L. ?F a = fwd_of ?sz (space_bottom s) ?L a"
    using fwd_of_marked_addrs [of _ "bitmap s" "space_bottom s" "space_top s" ?sz]
    by (simp add: forwardee_addr_def)
  have ne: "\<forall>a \<in> set ?L. objects s a \<noteq> None"
    using assms st by (fastforce simp: calc_ok_def)
  from calc_fold [OF d ne F, of "[]"]
  have fo: "fold_opt calc_do_object ?L (objects s, space_bottom s, []) =
     Some (forward_all ?F (set ?L) (objects s), space_bottom s + sum_list (map ?sz ?L),
           rev (preserved_of ?F (objects s) ?L))" by simp
  have top: "?F (space_top s) = space_bottom s + sum_list (map ?sz ?L)"
    by (simp add: forwardee_addr_def)
  let ?s' = "s\<lparr>objects := forward_all ?F (set ?L) (objects s)\<rparr>"
  have 1: "step2_calc s = Some (?s', ?F (space_top s), rev (preserved_of ?F (objects s) ?L))"
    using fo top by (simp add: step2_calc_def walk_bitmap_fold')
  have 2: "?F (space_top s) = space_bottom s + (\<Sum>a \<in> bits (bitmap s). ?sz a)"
    using top d st by (simp add: sum_list_distinct_conv_sum_set)
  have le: "\<forall>a \<in> set ?L. a + ?sz a \<le> space_top s"
    using assms st by (fastforce simp: calc_ok_def size_at_def)
  from assms have "space_bottom s \<le> space_top s" by (simp add: calc_ok_def)
  from sliding_total [OF sl this le] top have 3: "?F (space_top s) \<le> space_top s" by simp
  have 4: "\<forall>a \<in> bits (bitmap s). ?F a \<le> a \<and>
        objects ?s' a =
          (if ?F a = a then objects s a
           else map_option (\<lambda>od. od\<lparr>mark_word := Forwarding (?F a)\<rparr>) (objects s a))"
  proof
    fix a assume "a \<in> bits (bitmap s)"
    with st have a: "a \<in> set ?L" by simp
    from sliding_bounds [OF sl a] F a have "?F a \<le> a" by simp
    with a show "?F a \<le> a \<and>
        objects ?s' a =
          (if ?F a = a then objects s a
           else map_option (\<lambda>od. od\<lparr>mark_word := Forwarding (?F a)\<rparr>) (objects s a))"
      by (simp add: forward_all_def)
  qed
  have 5: "\<forall>a \<in> bits (bitmap s). \<forall>b \<in> bits (bitmap s). a < b \<longrightarrow> ?F a < ?F b"
  proof (intro ballI impI)
    fix a b assume "a \<in> bits (bitmap s)" "b \<in> bits (bitmap s)" "a < b"
    with st have a: "a \<in> set ?L" and b: "b \<in> set ?L" by simp_all
    from sl a have "0 < ?sz a" using assms st by (fastforce simp: calc_ok_def size_at_def)
    with sliding_mono [OF sl a b \<open>a < b\<close>] F a b show "?F a < ?F b" by simp
  qed
  have 6: "\<forall>a. a \<notin> bits (bitmap s) \<longrightarrow> objects ?s' a = objects s a"
    using st by (simp add: forward_all_def)
  have 7: "?s' = ?s'\<lparr>objects := objects ?s'\<rparr>" by simp
  from 1 2 3 4 5 6 show ?thesis
    by (intro exI [of _ ?s'] exI [of _ "rev (preserved_of ?F (objects s) ?L)"]) simp
qed

theorem calc_new_locations_witness:
  "calc_ok heap_ex_marked \<and>
   (\<exists>s' pm. step2_calc heap_ex_marked = Some (s', 5, pm) \<and>
      objects s' 0 = Some \<lparr>mark_word = Header 0, obj_size = 2, oop_fields = [Some 5]\<rparr> \<and>
      objects s' 5 = Some \<lparr>mark_word = Forwarding 2, obj_size = 3,
                              oop_fields = [Some 0, Some 5]\<rparr>)"
proof -
  have b: "bits (bitmap heap_ex_marked) = {0, 5}" "space_top heap_ex_marked = 8"
    by (simp_all add: heap_ex_marked_def heap_ex_def)
  have o: "objects heap_ex_marked 0 =
        Some \<lparr>mark_word = Header 0, obj_size = 2, oop_fields = [Some 5]\<rparr>"
      "objects heap_ex_marked 5 =
        Some \<lparr>mark_word = Header 7, obj_size = 3, oop_fields = [Some 0, Some 5]\<rparr>"
    by (simp_all add: heap_ex_marked_def heap_ex_def objs_ex_def)
  from calc_new_locations [OF calc_ok_heap_ex_marked] calc_ok_heap_ex_marked show ?thesis
    by (auto simp: b o forwardee_addr_heap_ex_marked)
qed

subsection \<open>getReferencedObjects\<close>

lemma slots_do_do_oop_nv:
  "n + length (filter (\<lambda>p. p \<noteq> None) fs) \<le> length buf \<Longrightarrow>
   slots_do do_oop_nv fs (buf, n) =
     Some (fs, take n buf @ filter (\<lambda>p. p \<noteq> None) fs @
               drop (n + length (filter (\<lambda>p. p \<noteq> None) fs)) buf,
           n + length (filter (\<lambda>p. p \<noteq> None) fs))"
proof (induction fs arbitrary: buf n)
  case Nil
  then show ?case by simp
next
  case (Cons p fs)
  show ?case
  proof (cases p)
    case None
    then have "do_oop_nv p (buf, n) = Some (p, buf, n)" by (simp add: do_oop_nv_def)
    with None Cons show ?thesis by simp
  next
    case (Some obj)
    let ?k = "length (filter (\<lambda>p. p \<noteq> None) fs)"
    from Cons.prems Some have len: "Suc n + ?k \<le> length buf" by simp
    then have "Suc n + ?k \<le> length (buf[n := Some obj])" by simp
    from Cons.IH [OF this]
    have ih: "slots_do do_oop_nv fs (buf[n := Some obj], Suc n) =
       Some (fs, take (Suc n) (buf[n := Some obj]) @ filter (\<lambda>p. p \<noteq> None) fs @
               drop (Suc n + ?k) (buf[n := Some obj]), Suc n + ?k)" .
    have t: "take (Suc n) (buf[n := Some obj]) = take n buf @ [Some obj]"
      using len by (simp add: take_Suc_conv_app_nth)
    have d: "drop (Suc n + ?k) (buf[n := Some obj]) = drop (Suc n + ?k) buf"
      by simp
    from len have "n < length buf" by simp
    with Some have hd: "do_oop_nv p (buf, n) = Some (p, buf[n := Some obj], Suc n)"
      by (simp add: do_oop_nv_def)
    from Some ih t d hd show ?thesis by simp
  qed
qed

text \<open>
  Claim C10. With \<open>count\<close> the sum of the nonstatic oop field counts over the class and
  its superclasses: when \<open>count\<close> is 0 the result is 0 and the buffer is untouched; when
  \<open>count\<close> exceeds the length of the buffer the result is -1 and the buffer is
  untouched; otherwise, for an object whose oop fields are as many as \<open>count\<close>, the
  non-null field values are written in order into a prefix of the buffer, the rest of
  the buffer is untouched, their number is returned, and that number is strictly less
  than \<open>count\<close> as soon as one field holds null.
\<close>

theorem getReferencedObjects_result:
  "(count_supers (Some k) 0 = 0 \<longrightarrow> getReferencedObjects k fs buf = Some (0, buf)) \<and>
   (count_supers (Some k) 0 \<noteq> 0 \<and> count_supers (Some k) 0 > int (length buf) \<longrightarrow>
      getReferencedObjects k fs buf = Some (- 1, buf)) \<and>
   (count_supers (Some k) 0 \<noteq> 0 \<and> count_supers (Some k) 0 \<le> int (length buf) \<and>
    int (length fs) = count_supers (Some k) 0 \<longrightarrow>
      getReferencedObjects k fs buf =
        Some (int (length (filter (\<lambda>p. p \<noteq> None) fs)),
              filter (\<lambda>p. p \<noteq> None) fs @ drop (length (filter (\<lambda>p. p \<noteq> None) fs)) buf) \<and>
      int (length (filter (\<lambda>p. p \<noteq> None) fs)) \<le> count_supers (Some k) 0 \<and>
      (None \<in> set fs \<longrightarrow>
         int (length (filter (\<lambda>p. p \<noteq> None) fs)) < count_supers (Some k) 0))"
proof (intro conjI impI)
  assume "count_supers (Some k) 0 = 0"
  then show "getReferencedObjects k fs buf = Some (0, buf)"
    by (simp add: getReferencedObjects_def)
next
  assume "count_supers (Some k) 0 \<noteq> 0 \<and> int (length buf) < count_supers (Some k) 0"
  then show "getReferencedObjects k fs buf = Some (- 1, buf)"
    by (simp add: getReferencedObjects_def)
next
  assume a: "count_supers (Some k) 0 \<noteq> 0 \<and> count_supers (Some k) 0 \<le> int (length buf) \<and>
    int (length fs) = count_supers (Some k) 0"
  let ?nn = "filter (\<lambda>p. p \<noteq> None) fs"
  have le: "length ?nn \<le> length fs" by simp
  with a have "0 + length ?nn \<le> length buf" by linarith
  from slots_do_do_oop_nv [OF this] a
  show "getReferencedObjects k fs buf = Some (int (length ?nn), ?nn @ drop (length ?nn) buf)"
    by (simp add: getReferencedObjects_def)
  from le a show "int (length ?nn) \<le> count_supers (Some k) 0" by linarith
  assume "None \<in> set fs"
  then have "length ?nn < length fs" by (simp add: length_filter_less)
  with a show "int (length ?nn) < count_supers (Some k) 0" by linarith
qed

theorem getReferencedObjects_result_witness:
  "getReferencedObjects (InstanceKlass 0 None) [] [None, None] = Some (0, [None, None]) \<and>
   getReferencedObjects klass_AB [Some 8, None, Some 16] [None, None] = Some (- 1, [None, None]) \<and>
   getReferencedObjects klass_AB [Some 8, None, Some 16] [None, Some 1, Some 2, Some 3] =
     Some (2, [Some 8, Some 16, Some 2, Some 3])"
  using getReferencedObjects_result [of "InstanceKlass 0 None" "[]" "[None, None]"]
    getReferencedObjects_result [of klass_AB "[Some 8, None, Some 16]" "[None, None]"]
    getReferencedObjects_result
      [of klass_AB "[Some 8, None, Some 16]" "[None, Some 1, Some 2, Some 3]"]
  by (simp add: klass_AB_def)

end
